theory Spec2Isabelle
  imports Main "HOL-Library.Word" "HOL-Library.Sublist"
begin

section \<open>The platform: buffers, strings and UTF-8\<close>

text \<open>
  The transport of \<^verbatim>\<open>v8Protocol.ts\<close> works on two kinds of sequences. A Node
  \<^verbatim>\<open>Buffer\<close> is a sequence of bytes; a JavaScript string is a sequence of 16-bit
  UTF-16 code units, and \<^verbatim>\<open>length\<close> and \<^verbatim>\<open>indexOf\<close> count code units.
  The class converts between the two with \<^verbatim>\<open>Buffer.toString('utf8', ...)\<close>,
  \<^verbatim>\<open>Buffer.byteLength(json, 'utf8')\<close> and \<^verbatim>\<open>write(json, 'utf8')\<close>.
\<close>

type_synonym byte = "8 word"
type_synonym buffer = "byte list"
type_synonym jschar = "16 word"
type_synonym jsstring = "jschar list"

text \<open>ASCII literals, as a JavaScript string and as the bytes of a buffer.\<close>

definition str :: "string \<Rightarrow> jsstring" where
  "str cs = map of_char cs"

definition bytes :: "string \<Rightarrow> buffer" where
  "bytes cs = map of_char cs"

text \<open>A code point as UTF-16: one unit, or a surrogate pair above the basic plane.\<close>

definition utf16_units :: "int \<Rightarrow> jsstring" where
  "utf16_units cp =
     (if cp < 0x10000 then [of_int cp]
      else [of_int (0xD800 + (cp - 0x10000) div 0x400),
            of_int (0xDC00 + (cp - 0x10000) mod 0x400)])"

text \<open>
  \<^verbatim>\<open>buf.toString('utf8')\<close>: the UTF-8 decoder of the Encoding Standard. The state is
  the code point collected so far, the number of continuation bytes still needed, and the
  range allowed for the next continuation byte. A byte that cannot continue a sequence ends
  it with U+FFFD and is read again as the start of the next one; a sequence cut off by the
  end of the buffer gives one U+FFFD. No byte order mark is removed.
\<close>

type_synonym utf8_state = "int \<times> int \<times> int \<times> int"

definition utf8_start :: utf8_state where
  "utf8_start = (0, 0, 0x80, 0xBF)"

text \<open>A byte read when no sequence is open.\<close>

definition utf8_lead :: "int \<Rightarrow> jsstring \<times> utf8_state" where
  "utf8_lead v =
     (if v \<le> 0x7F then ([of_int v], utf8_start)
      else if 0xC2 \<le> v \<and> v \<le> 0xDF then ([], (v mod 0x20, 1, 0x80, 0xBF))
      else if 0xE0 \<le> v \<and> v \<le> 0xEF then
        ([], (v mod 0x10, 2, if v = 0xE0 then 0xA0 else 0x80, if v = 0xED then 0x9F else 0xBF))
      else if 0xF0 \<le> v \<and> v \<le> 0xF4 then
        ([], (v mod 8, 3, if v = 0xF0 then 0x90 else 0x80, if v = 0xF4 then 0x8F else 0xBF))
      else ([0xFFFD], utf8_start))"

fun utf8_step :: "utf8_state \<Rightarrow> int \<Rightarrow> jsstring \<times> utf8_state" where
  "utf8_step (cp, needed, lo, hi) v =
     (if needed = 0 then utf8_lead v
      else if v < lo \<or> hi < v then (0xFFFD # fst (utf8_lead v), snd (utf8_lead v))
      else if needed = 1 then (utf16_units (cp * 0x40 + v mod 0x40), utf8_start)
      else ([], (cp * 0x40 + v mod 0x40, needed - 1, 0x80, 0xBF)))"

fun utf8_decode :: "utf8_state \<Rightarrow> buffer \<Rightarrow> jsstring" where
  "utf8_decode st [] = (if fst (snd st) = 0 then [] else [0xFFFD])"
| "utf8_decode st (b # bs) =
     fst (utf8_step st (uint b)) @ utf8_decode (snd (utf8_step st (uint b))) bs"

definition toString_utf8 :: "buffer \<Rightarrow> jsstring" where
  "toString_utf8 b = utf8_decode utf8_start b"

text \<open>
  Writing a string with encoding \<^verbatim>\<open>'utf8'\<close>: a surrogate pair is one code point of
  four bytes, a surrogate without its partner is written as U+FFFD.
\<close>

definition utf8_bytes :: "int \<Rightarrow> buffer" where
  "utf8_bytes cp =
     (if cp < 0x80 then [of_int cp]
      else if cp < 0x800 then [of_int (0xC0 + cp div 0x40), of_int (0x80 + cp mod 0x40)]
      else if cp < 0x10000 then
        [of_int (0xE0 + cp div 0x1000), of_int (0x80 + cp div 0x40 mod 0x40),
         of_int (0x80 + cp mod 0x40)]
      else
        [of_int (0xF0 + cp div 0x40000), of_int (0x80 + cp div 0x1000 mod 0x40),
         of_int (0x80 + cp div 0x40 mod 0x40), of_int (0x80 + cp mod 0x40)])"

definition is_high_surrogate :: "jschar \<Rightarrow> bool" where
  "is_high_surrogate c \<longleftrightarrow> 0xD800 \<le> c \<and> c \<le> 0xDBFF"

definition is_low_surrogate :: "jschar \<Rightarrow> bool" where
  "is_low_surrogate c \<longleftrightarrow> 0xDC00 \<le> c \<and> c \<le> 0xDFFF"

definition unit_code_point :: "jschar \<Rightarrow> int" where
  "unit_code_point c =
     (if is_high_surrogate c \<or> is_low_surrogate c then 0xFFFD else uint c)"

fun utf8_encode :: "jsstring \<Rightarrow> buffer" where
  "utf8_encode [] = []"
| "utf8_encode [c] = utf8_bytes (unit_code_point c)"
| "utf8_encode (c # d # cs) =
     (if is_high_surrogate c \<and> is_low_surrogate d then
        utf8_bytes (0x10000 + (uint c - 0xD800) * 0x400 + (uint d - 0xDC00)) @ utf8_encode cs
      else utf8_bytes (unit_code_point c) @ utf8_encode (d # cs))"

text \<open>\<^verbatim>\<open>Buffer.byteLength(json, 'utf8')\<close>: the number of bytes the string encodes to.\<close>

definition byteLength :: "jsstring \<Rightarrow> nat" where
  "byteLength s = length (utf8_encode s)"

text \<open>
  \<^verbatim>\<open>s.indexOf(pattern)\<close>: the position of the first occurrence, in code units,
  or \<open>-1\<close>.
\<close>

fun indexOf :: "jsstring \<Rightarrow> jsstring \<Rightarrow> int" where
  "indexOf [] pat = (if pat = [] then 0 else -1)"
| "indexOf (c # cs) pat =
     (if prefix pat (c # cs) then 0
      else (let i = indexOf cs pat in if i = -1 then -1 else i + 1))"

definition is_digit :: "jschar \<Rightarrow> bool" where
  "is_digit c \<longleftrightarrow> 0x30 \<le> c \<and> c \<le> 0x39"

text \<open>
  \<^verbatim>\<open>/Content-Length: (\d+)/.exec(s)\<close>: the leftmost place in \<open>s\<close> where the
  literal text is followed by a digit; the group is the longest run of digits there.
  The result is the text of group 1, or \<open>None\<close> for \<^verbatim>\<open>null\<close>. A group of
  \<^verbatim>\<open>\d+\<close> is never empty, so \<^verbatim>\<open>match && match[1]\<close> holds exactly when there
  is a match.
\<close>

fun exec_Content_Length :: "jsstring \<Rightarrow> jsstring option" where
  "exec_Content_Length [] = None"
| "exec_Content_Length (c # cs) =
     (let m = takeWhile is_digit (drop 16 (c # cs)) in
      if prefix (str ''Content-Length: '') (c # cs) \<and> m \<noteq> [] then Some m
      else exec_Content_Length cs)"

text \<open>
  \<^verbatim>\<open>Number(match[1])\<close> on a string of decimal digits, and \<^verbatim>\<open>length.toString()\<close>
  on a length. JavaScript numbers are doubles, exact on integers below \<open>2 ^ 53\<close>; a
  buffer is shorter than that, so a recorded length that the buffer can reach is exact, and
  the model uses unbounded integers.
\<close>

definition Number :: "jsstring \<Rightarrow> int" where
  "Number ds = foldl (\<lambda>n d. 10 * n + (uint d - 0x30)) 0 ds"

fun digits_of :: "nat \<Rightarrow> jsstring" where
  "digits_of n = (if n < 10 then [of_nat (0x30 + n)]
                  else digits_of (n div 10) @ [of_nat (0x30 + n mod 10)])"

declare digits_of.simps [simp del]

definition TWO_CRLF :: jsstring where
  "TWO_CRLF = [0x0D, 0x0A, 0x0D, 0x0A]"


section \<open>The platform: JSON values\<close>

text \<open>
  What \<^verbatim>\<open>JSON.parse\<close> returns and \<^verbatim>\<open>JSON.stringify\<close> accepts. An object is
  the list of its properties in the order JavaScript enumerates them (the order in which
  they were created, for names that are not array indices); the names of an object are
  distinct. A number is a double in JavaScript: the integers that the sequence counter and
  the pending table use are exact and are \<open>JNum\<close>; a numeral whose value is not an
  integer is kept as its text, \<open>JFloat\<close>, and its value is outside the model.
  \<^verbatim>\<open>undefined\<close>, which is no JSON value, is \<open>None\<close> of \<open>json option\<close>.
\<close>

datatype json =
    JNull
  | JBool bool
  | JNum int
  | JFloat jsstring
  | JStr jsstring
  | JArr "json list"
  | JObj "(jsstring \<times> json) list"

type_synonym jsobject = "(jsstring \<times> json) list"

datatype js_error = SyntaxError jsstring | TypeError jsstring

fun message_of :: "js_error \<Rightarrow> jsstring" where
  "message_of (SyntaxError m) = m"
| "message_of (TypeError m) = m"

fun name_of :: "js_error \<Rightarrow> jsstring" where
  "name_of (SyntaxError m) = str ''SyntaxError''"
| "name_of (TypeError m) = str ''TypeError''"

text \<open>Reading a property of an object: \<^verbatim>\<open>o.name\<close>.\<close>

definition obj_get :: "jsobject \<Rightarrow> jsstring \<Rightarrow> json option" where
  "obj_get props name = map_of props name"

text \<open>
  Assigning a property, \<^verbatim>\<open>o.name = v\<close>: an existing property keeps its place, a new
  one goes last.
\<close>

fun obj_set :: "jsstring \<Rightarrow> json \<Rightarrow> jsobject \<Rightarrow> jsobject" where
  "obj_set name v [] = [(name, v)]"
| "obj_set name v ((k, w) # props) =
     (if k = name then (k, v) # props else (k, w) # obj_set name v props)"

text \<open>
  \<^verbatim>\<open>value.name\<close> on what \<^verbatim>\<open>JSON.parse\<close> returned, for a name such as
  \<^verbatim>\<open>type\<close> or \<^verbatim>\<open>request_seq\<close> that no prototype defines: reading a property of
  \<^verbatim>\<open>null\<close> throws a TypeError, an object gives its own property, and every other
  value gives \<^verbatim>\<open>undefined\<close>.
\<close>

fun get_property :: "json \<Rightarrow> jsstring \<Rightarrow> js_error + json option" where
  "get_property JNull name =
     Inl (TypeError (str ''Cannot read property '' @ name @ str '' of null''))"
| "get_property (JObj props) name = Inr (obj_get props name)"
| "get_property v name = Inr None"

subsection \<open>A reference \<^verbatim>\<open>JSON.parse\<close>\<close>

definition is_ws :: "jschar \<Rightarrow> bool" where
  "is_ws c \<longleftrightarrow> c = 0x20 \<or> c = 0x09 \<or> c = 0x0A \<or> c = 0x0D"

definition skip_ws :: "jsstring \<Rightarrow> jsstring" where
  "skip_ws s = dropWhile is_ws s"

definition starts_with :: "jschar \<Rightarrow> jsstring \<Rightarrow> bool" where
  "starts_with c s = (case s of [] \<Rightarrow> False | d # _ \<Rightarrow> d = c)"

definition hex_value :: "jschar \<Rightarrow> int option" where
  "hex_value c =
     (if 0x30 \<le> c \<and> c \<le> 0x39 then Some (uint c - 0x30)
      else if 0x41 \<le> c \<and> c \<le> 0x46 then Some (uint c - 0x37)
      else if 0x61 \<le> c \<and> c \<le> 0x66 then Some (uint c - 0x57)
      else None)"

fun hex4 :: "jsstring \<Rightarrow> jschar option" where
  "hex4 [a, b, c, d] =
     (case (hex_value a, hex_value b, hex_value c, hex_value d) of
        (Some x, Some y, Some z, Some w) \<Rightarrow> Some (of_int (((x * 16 + y) * 16 + z) * 16 + w))
      | _ \<Rightarrow> None)"
| "hex4 hs = None"

definition unescape :: "jschar \<Rightarrow> jschar option" where
  "unescape e =
     (if e = 0x22 \<or> e = 0x5C \<or> e = 0x2F then Some e
      else if e = 0x62 then Some 0x08
      else if e = 0x66 then Some 0x0C
      else if e = 0x6E then Some 0x0A
      else if e = 0x72 then Some 0x0D
      else if e = 0x74 then Some 0x09
      else None)"

definition consume :: "'a \<Rightarrow> ('a list \<times> jsstring) option \<Rightarrow> ('a list \<times> jsstring) option" where
  "consume x r = (case r of None \<Rightarrow> None | Some (xs, rest) \<Rightarrow> Some (x # xs, rest))"

text \<open>The characters of a string literal after its opening quote, and what follows it.\<close>

fun parse_chars :: "jsstring \<Rightarrow> (jsstring \<times> jsstring) option" where
  "parse_chars [] = None"
| "parse_chars (c # cs) =
     (if c = 0x22 then Some ([], cs)
      else if c = 0x5C then
        (case cs of
           [] \<Rightarrow> None
         | e # r \<Rightarrow>
             if e = 0x75 then
               (case hex4 (take 4 r) of
                  None \<Rightarrow> None
                | Some u \<Rightarrow> consume u (parse_chars (drop 4 r)))
             else
               (case unescape e of
                  None \<Rightarrow> None
                | Some u \<Rightarrow> consume u (parse_chars r)))
      else if c < 0x20 then None
      else consume c (parse_chars cs))"

text \<open>
  A numeral: sign, integer part without leading zeros, fraction, exponent. Its value is
  computed exactly; JavaScript rounds it to a double, which agrees on the integers below
  \<open>2 ^ 53\<close>.
\<close>

definition number_value :: "bool \<Rightarrow> jsstring \<Rightarrow> jsstring \<Rightarrow> bool \<Rightarrow> jsstring \<Rightarrow> jsstring \<Rightarrow> json" where
  "number_value neg ip fp eneg ep text =
     (let m = Number (ip @ fp);
          e = (if eneg then - Number ep else Number ep) - int (length fp);
          sg = (if neg then - 1 else 1)
      in if 0 \<le> e then JNum (sg * m * 10 ^ nat e)
         else if m mod 10 ^ nat (- e) = 0 then JNum (sg * (m div 10 ^ nat (- e)))
         else JFloat text)"

definition parse_exponent ::
  "bool \<Rightarrow> jsstring \<Rightarrow> jsstring \<Rightarrow> jsstring \<Rightarrow> jsstring \<Rightarrow> (json \<times> jsstring) option" where
  "parse_exponent neg ip fp s3 s =
     (let has_exp = (starts_with 0x65 s3 \<or> starts_with 0x45 s3);
          s4 = (if has_exp then drop 1 s3 else s3);
          eneg = (has_exp \<and> starts_with 0x2D s4);
          signed = (has_exp \<and> (starts_with 0x2D s4 \<or> starts_with 0x2B s4));
          s5 = (if signed then drop 1 s4 else s4);
          ep = (if has_exp then takeWhile is_digit s5 else []);
          s6 = (if has_exp then drop (length ep) s5 else s3)
      in if has_exp \<and> ep = [] then None
         else Some (number_value neg ip fp eneg ep (take (length s - length s6) s), s6))"

definition parse_fraction ::
  "bool \<Rightarrow> jsstring \<Rightarrow> jsstring \<Rightarrow> jsstring \<Rightarrow> (json \<times> jsstring) option" where
  "parse_fraction neg ip s2 s =
     (let has_frac = starts_with 0x2E s2;
          fp = (if has_frac then takeWhile is_digit (drop 1 s2) else []);
          s3 = (if has_frac then drop (1 + length fp) s2 else s2)
      in if has_frac \<and> fp = [] then None
         else parse_exponent neg ip fp s3 s)"

definition parse_number :: "jsstring \<Rightarrow> (json \<times> jsstring) option" where
  "parse_number s =
     (let neg = starts_with 0x2D s;
          s1 = (if neg then drop 1 s else s);
          ip = (if starts_with 0x30 s1 then [0x30] else takeWhile is_digit s1)
      in if ip = [] then None
         else parse_fraction neg ip (drop (length ip) s1) s)"

text \<open>
  A property read twice in the text of an object keeps its first place and its last value,
  as \<^verbatim>\<open>JSON.parse\<close> does.
\<close>

definition make_object :: "(jsstring \<times> json) list \<Rightarrow> json" where
  "make_object members = JObj (foldl (\<lambda>props (k, v). obj_set k v props) [] members)"

text \<open>
  The value at the start of the text and what follows it. The first argument bounds the
  number of nested calls; each call reads at least one character every second level, so
  twice the length of the text is enough.
\<close>

fun parse_value :: "nat \<Rightarrow> jsstring \<Rightarrow> (json \<times> jsstring) option"
and parse_elements :: "nat \<Rightarrow> jsstring \<Rightarrow> (json list \<times> jsstring) option"
and parse_members :: "nat \<Rightarrow> jsstring \<Rightarrow> ((jsstring \<times> json) list \<times> jsstring) option"
where
  "parse_value 0 s = None"
| "parse_value (Suc n) s =
     (case skip_ws s of
        [] \<Rightarrow> None
      | c # cs \<Rightarrow>
          if c = 0x7B then
            (if starts_with 0x7D (skip_ws cs) then Some (JObj [], drop 1 (skip_ws cs))
             else (case parse_members n cs of
                     None \<Rightarrow> None
                   | Some (members, rest) \<Rightarrow> Some (make_object members, rest)))
          else if c = 0x5B then
            (if starts_with 0x5D (skip_ws cs) then Some (JArr [], drop 1 (skip_ws cs))
             else (case parse_elements n cs of
                     None \<Rightarrow> None
                   | Some (elements, rest) \<Rightarrow> Some (JArr elements, rest)))
          else if c = 0x22 then
            (case parse_chars cs of
               None \<Rightarrow> None
             | Some (chars, rest) \<Rightarrow> Some (JStr chars, rest))
          else if prefix (str ''true'') (c # cs) then Some (JBool True, drop 4 (c # cs))
          else if prefix (str ''false'') (c # cs) then Some (JBool False, drop 5 (c # cs))
          else if prefix (str ''null'') (c # cs) then Some (JNull, drop 4 (c # cs))
          else parse_number (c # cs))"
| "parse_elements 0 s = None"
| "parse_elements (Suc n) s =
     (case parse_value n s of
        None \<Rightarrow> None
      | Some (v, r) \<Rightarrow>
          (case skip_ws r of
             [] \<Rightarrow> None
           | c # cs \<Rightarrow>
               if c = 0x2C then consume v (parse_elements n cs)
               else if c = 0x5D then Some ([v], cs)
               else None))"
| "parse_members 0 s = None"
| "parse_members (Suc n) s =
     (case skip_ws s of
        [] \<Rightarrow> None
      | q # s1 \<Rightarrow>
          if q \<noteq> 0x22 then None
          else
            (case parse_chars s1 of
               None \<Rightarrow> None
             | Some (k, r) \<Rightarrow>
                 (case skip_ws r of
                    [] \<Rightarrow> None
                  | c # cs \<Rightarrow>
                      if c \<noteq> 0x3A then None
                      else
                        (case parse_value n cs of
                           None \<Rightarrow> None
                         | Some (v, r2) \<Rightarrow>
                             (case skip_ws r2 of
                                [] \<Rightarrow> None
                              | d # ds \<Rightarrow>
                                  if d = 0x2C then consume (k, v) (parse_members n ds)
                                  else if d = 0x7D then Some ([(k, v)], ds)
                                  else None)))))"

text \<open>
  \<^verbatim>\<open>JSON.parse(text)\<close>: one value with nothing but white space after it, or a
  SyntaxError. The wording of the error is the engine's and is not modelled.
\<close>

definition JSON_parse :: "jsstring \<Rightarrow> js_error + json" where
  "JSON_parse text =
     (case parse_value (2 * length text + 2) text of
        None \<Rightarrow> Inl (SyntaxError (str ''Unexpected token in JSON''))
      | Some (v, rest) \<Rightarrow>
          if skip_ws rest = [] then Inr v
          else Inl (SyntaxError (str ''Unexpected token in JSON'')))"

subsection \<open>A reference \<^verbatim>\<open>JSON.stringify\<close>\<close>

definition hex_digit :: "int \<Rightarrow> jschar" where
  "hex_digit d = (if d < 10 then of_int (0x30 + d) else of_int (0x57 + d))"

definition unicode_escape :: "jschar \<Rightarrow> jsstring" where
  "unicode_escape c =
     [0x5C, 0x75, hex_digit (uint c div 0x1000), hex_digit (uint c div 0x100 mod 0x10),
      hex_digit (uint c div 0x10 mod 0x10), hex_digit (uint c mod 0x10)]"

definition quote_unit :: "jschar \<Rightarrow> jsstring" where
  "quote_unit c =
     (if c = 0x22 then [0x5C, 0x22]
      else if c = 0x5C then [0x5C, 0x5C]
      else if c = 0x08 then [0x5C, 0x62]
      else if c = 0x0C then [0x5C, 0x66]
      else if c = 0x0A then [0x5C, 0x6E]
      else if c = 0x0D then [0x5C, 0x72]
      else if c = 0x09 then [0x5C, 0x74]
      else if c < 0x20 \<or> is_high_surrogate c \<or> is_low_surrogate c then unicode_escape c
      else [c])"

fun quote_chars :: "jsstring \<Rightarrow> jsstring" where
  "quote_chars [] = []"
| "quote_chars [c] = quote_unit c"
| "quote_chars (c # d # cs) =
     (if is_high_surrogate c \<and> is_low_surrogate d then c # d # quote_chars cs
      else quote_unit c @ quote_chars (d # cs))"

definition quote :: "jsstring \<Rightarrow> jsstring" where
  "quote s = 0x22 # quote_chars s @ [0x22]"

definition int_text :: "int \<Rightarrow> jsstring" where
  "int_text n = (if n < 0 then 0x2D # digits_of (nat (- n)) else digits_of (nat n))"

fun stringify :: "json \<Rightarrow> jsstring"
and stringify_elements :: "json list \<Rightarrow> jsstring"
and stringify_members :: "(jsstring \<times> json) list \<Rightarrow> jsstring"
where
  "stringify JNull = str ''null''"
| "stringify (JBool b) = (if b then str ''true'' else str ''false'')"
| "stringify (JNum n) = int_text n"
| "stringify (JFloat text) = text"
| "stringify (JStr s) = quote s"
| "stringify (JArr vs) = 0x5B # stringify_elements vs @ [0x5D]"
| "stringify (JObj props) = 0x7B # stringify_members props @ [0x7D]"
| "stringify_elements [] = []"
| "stringify_elements [v] = stringify v"
| "stringify_elements (v # w # vs) = stringify v @ 0x2C # stringify_elements (w # vs)"
| "stringify_members [] = []"
| "stringify_members [(k, v)] = quote k @ 0x3A # stringify v"
| "stringify_members ((k, v) # p # props) =
     quote k @ 0x3A # stringify v @ 0x2C # stringify_members (p # props)"

text \<open>\<^verbatim>\<open>JSON.stringify(message)\<close>: no white space, properties in their order.\<close>

definition JSON_stringify :: "json \<Rightarrow> jsstring" where
  "JSON_stringify v = stringify v"


section \<open>The class \<^verbatim>\<open>DebugAdapterProtocol\<close>\<close>

text \<open>
  The fields of the class, for a transport that \<^verbatim>\<open>connect\<close> has attached to its
  streams. The writable stream is the sequence of bytes written to it. What the class does
  to the outside is recorded in the order it happens: \<open>signals\<close> lists the events fired
  on the three emitters and the callbacks invoked, \<open>console\<close> the lines written with
  \<^verbatim>\<open>console.error\<close>. A callback is a value of the type \<open>'cb\<close>: it is invoked,
  not run, so a callback is taken to return normally and not to call back into the
  transport.
\<close>

datatype 'cb signal =
    Fire_onError jsstring
  | Fire_onEvent json
  | Fire_onRequest json
  | Invoke 'cb json

record 'cb protocol =
  outputStream :: buffer
  sequence :: int
  pendingRequests :: "int \<rightharpoonup> 'cb"
  rawData :: buffer
  contentLength :: int
  signals :: "'cb signal list"
  console :: "jsstring list"

definition constructor :: "'cb protocol" where
  "constructor =
     \<lparr> outputStream = [], sequence = 1, pendingRequests = Map.empty, rawData = [],
       contentLength = - 1, signals = [], console = [] \<rparr>"

definition fire :: "'cb signal \<Rightarrow> 'cb protocol \<Rightarrow> 'cb protocol" where
  "fire sig st = st\<lparr>signals := signals st @ [sig]\<rparr>"

text \<open>\<^verbatim>\<open>outputStream.write(text, 'utf8')\<close>\<close>

definition stream_write :: "jsstring \<Rightarrow> 'cb protocol \<Rightarrow> 'cb protocol" where
  "stream_write text st = st\<lparr>outputStream := outputStream st @ utf8_encode text\<rparr>"

subsection \<open>Sending\<close>

text \<open>
  \<^verbatim>\<open>sendMessage\<close> assigns \<^verbatim>\<open>type\<close> and \<^verbatim>\<open>seq\<close> on the caller's object,
  so the object is returned together with the state.
\<close>

definition sendMessage :: "jsstring \<Rightarrow> jsobject \<Rightarrow> 'cb protocol \<Rightarrow> jsobject \<times> 'cb protocol" where
  "sendMessage typ message st =
     (let message1 = obj_set (str ''type'') (JStr typ) message;
          message2 = obj_set (str ''seq'') (JNum (sequence st)) message1;
          st1 = st\<lparr>sequence := sequence st + 1\<rparr>;
          json = JSON_stringify (JObj message2);
          len = byteLength json;
          st2 = stream_write (str ''Content-Length: '' @ digits_of len @ TWO_CRLF) st1;
          st3 = stream_write json st2
      in (message2, st3))"

text \<open>
  \<^verbatim>\<open>response.seq > 0\<close>. The field is declared a number; a missing field is
  \<^verbatim>\<open>undefined\<close>, which compares false, \<^verbatim>\<open>null\<close> counts as 0 and a boolean as
  0 or 1. For the values that the declaration excludes and JavaScript would first convert
  from text, the comparison is taken to be false.
\<close>

fun greater_than_zero :: "json option \<Rightarrow> bool" where
  "greater_than_zero (Some (JNum n)) = (0 < n)"
| "greater_than_zero (Some (JFloat text)) = (\<not> starts_with 0x2D text)"
| "greater_than_zero (Some (JBool b)) = b"
| "greater_than_zero v = False"

text \<open>
  The text of \<^verbatim>\<open>${response.command}\<close> in the template: a string as it is,
  \<^verbatim>\<open>undefined\<close> by its name, the other primitive values as JSON prints them.
\<close>

fun interpolate :: "json option \<Rightarrow> jsstring" where
  "interpolate None = str ''undefined''"
| "interpolate (Some (JStr s)) = s"
| "interpolate (Some v) = JSON_stringify v"

definition console_error :: "jsstring \<Rightarrow> 'cb protocol \<Rightarrow> 'cb protocol" where
  "console_error line st = st\<lparr>console := console st @ [line]\<rparr>"

definition sendResponse :: "jsobject \<Rightarrow> 'cb protocol \<Rightarrow> jsobject \<times> 'cb protocol" where
  "sendResponse response st =
     (if greater_than_zero (obj_get response (str ''seq'')) then
        (response,
         console_error
           (str ''attempt to send more than one response for command '' @
            interpolate (obj_get response (str ''command''))) st)
      else sendMessage (str ''response'') response st)"

text \<open>
  \<^verbatim>\<open>args && Object.keys(args).length > 0\<close>: whether a value counts as true, and
  the number of its own enumerable properties (the properties of an object, the indices of
  an array or of a string, none for a number or a boolean).
\<close>

fun truthy :: "json option \<Rightarrow> bool" where
  "truthy None = False"
| "truthy (Some JNull) = False"
| "truthy (Some (JBool b)) = b"
| "truthy (Some (JNum n)) = (n \<noteq> 0)"
| "truthy (Some (JFloat text)) = True"
| "truthy (Some (JStr s)) = (s \<noteq> [])"
| "truthy (Some (JArr vs)) = True"
| "truthy (Some (JObj props)) = True"

fun Object_keys_length :: "json option \<Rightarrow> nat" where
  "Object_keys_length (Some (JObj props)) = length props"
| "Object_keys_length (Some (JArr vs)) = length vs"
| "Object_keys_length (Some (JStr s)) = length s"
| "Object_keys_length v = 0"

text \<open>
  \<^verbatim>\<open>sendRequest(command, args, clb)\<close>; \<open>None\<close> for \<open>args\<close> or \<open>clb\<close> is
  \<^verbatim>\<open>undefined\<close>. \<open>new_request\<close> is the object that the first lines build. After
  \<^verbatim>\<open>sendMessage\<close> the request carries the number it was sent under, and the callback
  is stored under it.
\<close>

definition new_request :: "jsstring \<Rightarrow> json option \<Rightarrow> jsobject" where
  "new_request command args =
     (let request = [(str ''command'', JStr command)]
      in case args of
           Some a \<Rightarrow>
             if truthy args \<and> Object_keys_length args > 0
             then obj_set (str ''arguments'') a request else request
         | None \<Rightarrow> request)"

definition sendRequest :: "jsstring \<Rightarrow> json option \<Rightarrow> 'cb option \<Rightarrow> 'cb protocol \<Rightarrow> 'cb protocol" where
  "sendRequest command args clb st =
     (let (request, st1) = sendMessage (str ''request'') (new_request command args) st
      in case clb of
           None \<Rightarrow> st1
         | Some c \<Rightarrow>
             (case obj_get request (str ''seq'') of
                Some (JNum k) \<Rightarrow> st1\<lparr>pendingRequests := (pendingRequests st1)(k \<mapsto> c)\<rparr>
              | _ \<Rightarrow> st1))"

subsection \<open>Receiving\<close>

text \<open>
  \<^verbatim>\<open>this.pendingRequests.get(response.request_seq)\<close>: the keys of the table are
  numbers, so a value that is no number, or \<^verbatim>\<open>undefined\<close>, finds nothing.
\<close>

fun pending_get :: "(int \<rightharpoonup> 'cb) \<Rightarrow> json option \<Rightarrow> 'cb option" where
  "pending_get table (Some (JNum k)) = table k"
| "pending_get table v = None"

fun pending_delete :: "(int \<rightharpoonup> 'cb) \<Rightarrow> json option \<Rightarrow> (int \<rightharpoonup> 'cb)" where
  "pending_delete table (Some (JNum k)) = table(k := None)"
| "pending_delete table v = table"

text \<open>\<^verbatim>\<open>new Error(e.message || e)\<close>, by its message.\<close>

definition error_text :: "js_error \<Rightarrow> jsstring" where
  "error_text e =
     (if message_of e \<noteq> [] then message_of e else name_of e)"

definition dispatch :: "jsstring \<Rightarrow> 'cb protocol \<Rightarrow> 'cb protocol" where
  "dispatch body st =
     (case JSON_parse body of
        Inl e \<Rightarrow> fire (Fire_onError (error_text e)) st
      | Inr data \<Rightarrow>
          (case get_property data (str ''type'') of
             Inl e \<Rightarrow> fire (Fire_onError (error_text e)) st
           | Inr typ \<Rightarrow>
               if typ = Some (JStr (str ''event'')) then fire (Fire_onEvent data) st
               else if typ = Some (JStr (str ''response'')) then
                 (case get_property data (str ''request_seq'') of
                    Inl e \<Rightarrow> fire (Fire_onError (error_text e)) st
                  | Inr request_seq \<Rightarrow>
                      (case pending_get (pendingRequests st) request_seq of
                         Some clb \<Rightarrow>
                           fire (Invoke clb data)
                             (st\<lparr>pendingRequests :=
                                   pending_delete (pendingRequests st) request_seq\<rparr>)
                       | None \<Rightarrow> st))
               else if typ = Some (JStr (str ''request'')) then fire (Fire_onRequest data) st
               else st))"

text \<open>
  One turn of the loop of \<^verbatim>\<open>handleData\<close>: \<open>Some\<close> of the new state where the
  source says \<^verbatim>\<open>continue\<close>, \<open>None\<close> where it reaches \<^verbatim>\<open>break\<close>. The index
  that \<^verbatim>\<open>indexOf\<close> finds in the decoded text is used as a number of bytes.
\<close>

definition handleData_step :: "'cb protocol \<Rightarrow> 'cb protocol option" where
  "handleData_step st =
     (if contentLength st \<ge> 0 then
        (if int (length (rawData st)) \<ge> contentLength st then
           (let message = toString_utf8 (take (nat (contentLength st)) (rawData st));
                st1 = st\<lparr>rawData := drop (nat (contentLength st)) (rawData st)\<rparr>;
                st2 = st1\<lparr>contentLength := - 1\<rparr>
            in Some (if length message > 0 then dispatch message st2 else st2))
         else None)
      else
        (let s = toString_utf8 (rawData st);
             idx = indexOf s TWO_CRLF
         in if idx \<noteq> - 1 then
              (case exec_Content_Length s of
                 Some digits \<Rightarrow>
                   Some (st\<lparr>contentLength := Number digits,
                            rawData := drop (nat (idx + int (length TWO_CRLF))) (rawData st)\<rparr>)
               | None \<Rightarrow> None)
            else None))"


text \<open>What a turn of the loop leaves alone, and what it uses up.\<close>

lemma rawData_dispatch [simp]: "rawData (dispatch body st) = rawData st"
  by (simp add: dispatch_def fire_def split: sum.split option.split)

lemma contentLength_dispatch [simp]: "contentLength (dispatch body st) = contentLength st"
  by (simp add: dispatch_def fire_def split: sum.split option.split)

lemma indexOf_ge: "- 1 \<le> indexOf s pat"
  by (induction s) (simp_all add: Let_def)

lemma indexOf_Nil: "pat \<noteq> [] \<Longrightarrow> indexOf [] pat = - 1"
  by simp

definition loop_measure :: "'cb protocol \<Rightarrow> nat" where
  "loop_measure st = 2 * length (rawData st) + (if contentLength st \<ge> 0 then 1 else 0)"

lemma handleData_step_header:
  assumes "handleData_step st = Some st'" and "\<not> contentLength st \<ge> 0"
  shows "length (rawData st') < length (rawData st)"
proof -
  let ?s = "toString_utf8 (rawData st)"
  from assms have found: "indexOf ?s TWO_CRLF \<noteq> - 1"
    by (auto simp: handleData_step_def Let_def split: if_splits)
  then have nonempty: "rawData st \<noteq> []"
    by (auto simp: toString_utf8_def utf8_start_def TWO_CRLF_def)
  from found indexOf_ge [of ?s TWO_CRLF] have "0 \<le> indexOf ?s TWO_CRLF"
    by linarith
  then have "0 < nat (indexOf ?s TWO_CRLF + int (length TWO_CRLF))"
    by (simp add: TWO_CRLF_def)
  moreover from assms have
    "rawData st' = drop (nat (indexOf ?s TWO_CRLF + int (length TWO_CRLF))) (rawData st)"
    by (auto simp: handleData_step_def Let_def split: if_splits option.splits)
  ultimately show ?thesis
    using nonempty by simp
qed

lemma handleData_step_body:
  assumes "handleData_step st = Some st'" and "contentLength st \<ge> 0"
  shows "rawData st' = drop (nat (contentLength st)) (rawData st) \<and> contentLength st' = - 1"
  using assms by (auto simp: handleData_step_def Let_def split: if_splits)

lemma handleData_step_measure:
  assumes "handleData_step st = Some st'"
  shows "loop_measure st' < loop_measure st"
proof (cases "contentLength st \<ge> 0")
  case True
  with assms handleData_step_body [of st st'] show ?thesis
    by (simp add: loop_measure_def)
next
  case False
  with assms handleData_step_header [of st st'] show ?thesis
    by (simp add: loop_measure_def)
qed

text \<open>The loop \<^verbatim>\<open>while (true)\<close> of \<^verbatim>\<open>handleData\<close>.\<close>

function handleData :: "'cb protocol \<Rightarrow> 'cb protocol" where
  "handleData st =
     (case handleData_step st of
        None \<Rightarrow> st
      | Some st' \<Rightarrow> handleData st')"
  by pat_completeness auto
termination
  by (relation "measure loop_measure") (simp_all add: handleData_step_measure)

declare handleData.simps [simp del]

text \<open>The listener that \<^verbatim>\<open>connect\<close> puts on the readable stream.\<close>

definition onData :: "buffer \<Rightarrow> 'cb protocol \<Rightarrow> 'cb protocol" where
  "onData data st = handleData (st\<lparr>rawData := rawData st @ data\<rparr>)"


section \<open>The decode loop ends\<close>

text \<open>
  The same loop with a bound on the number of turns: \<open>None\<close> when the bound is used up
  before the loop reaches \<^verbatim>\<open>break\<close>.
\<close>

fun handleData_fuel :: "nat \<Rightarrow> 'cb protocol \<Rightarrow> 'cb protocol option" where
  "handleData_fuel 0 st = None"
| "handleData_fuel (Suc n) st =
     (case handleData_step st of
        None \<Rightarrow> Some st
      | Some st' \<Rightarrow> handleData_fuel n st')"

lemma handleData_fuel_enough:
  "loop_measure st < n \<Longrightarrow> handleData_fuel n st = Some (handleData st)"
proof (induction n arbitrary: st)
  case 0
  then show ?case by simp
next
  case (Suc n)
  show ?case
  proof (cases "handleData_step st")
    case None
    then show ?thesis by (simp add: handleData.simps [of st])
  next
    case (Some st')
    with Suc.prems handleData_step_measure [of st st'] have "loop_measure st' < n"
      by simp
    with Some Suc.IH [of st'] show ?thesis
      by (simp add: handleData.simps [of st])
  qed
qed

lemma handleData_stops: "handleData_step (handleData st) = None"
proof (induction st rule: handleData.induct)
  case (1 st)
  then show ?case
    by (cases "handleData_step st") (simp_all add: handleData.simps [of st])
qed

text \<open>
  Claim C9. Whatever the receive buffer holds and whatever length is recorded, a turn of
  the loop of \<^verbatim>\<open>handleData\<close> that continues either leaves fewer bytes in the buffer
  or goes from awaiting a body of length 0 to awaiting a header without touching the
  buffer; therefore the loop reaches \<^verbatim>\<open>break\<close> after at most
  \<open>2 * length (rawData st) + 2\<close> turns, in a state where no further turn is possible.
\<close>

theorem handleData_loop_terminates:
  "(\<forall>st'. handleData_step st = Some st' \<longrightarrow>
      length (rawData st') < length (rawData st) \<or>
      (contentLength st \<ge> 0 \<and> contentLength st' = - 1 \<and>
       length (rawData st') = length (rawData st)))
   \<and> handleData_fuel (Suc (loop_measure st)) st = Some (handleData st)
   \<and> handleData_step (handleData st) = None"
proof (intro conjI allI impI)
  fix st'
  assume step: "handleData_step st = Some st'"
  show "length (rawData st') < length (rawData st) \<or>
      (contentLength st \<ge> 0 \<and> contentLength st' = - 1 \<and>
       length (rawData st') = length (rawData st))"
  proof (cases "contentLength st \<ge> 0")
    case True
    from step True have enough: "contentLength st \<le> int (length (rawData st))"
      by (auto simp: handleData_step_def Let_def split: if_splits)
    from step True handleData_step_body [of st st']
    have "rawData st' = drop (nat (contentLength st)) (rawData st)" "contentLength st' = - 1"
      by simp_all
    with True enough show ?thesis
      by (cases "contentLength st = 0") auto
  next
    case False
    with step handleData_step_header [of st st'] show ?thesis
      by simp
  qed
next
  show "handleData_fuel (Suc (loop_measure st)) st = Some (handleData st)"
    by (rule handleData_fuel_enough) simp
next
  show "handleData_step (handleData st) = None"
    by (rule handleData_stops)
qed

text \<open>A header announcing an empty body: the turn that reads it uses up its 21 bytes.\<close>

definition frame_zero :: "nat protocol" where
  "frame_zero = constructor\<lparr>rawData := bytes ''Content-Length: 0'' @ [13, 10, 13, 10]\<rparr>"

lemma frame_zero_step:
  "handleData_step frame_zero = Some (constructor\<lparr>contentLength := 0\<rparr>)"
  by (simp add: frame_zero_def constructor_def handleData_step_def bytes_def toString_utf8_def
      utf8_start_def utf8_lead_def TWO_CRLF_def str_def is_digit_def Number_def)

theorem handleData_loop_terminates_witness:
  "handleData_step frame_zero = Some (constructor\<lparr>contentLength := 0\<rparr>) \<and>
   length (rawData (constructor\<lparr>contentLength := 0\<rparr> :: nat protocol))
     < length (rawData frame_zero)"
  using handleData_loop_terminates [of frame_zero] frame_zero_step
  by (simp add: constructor_def)


section \<open>Frames on the wire\<close>

subsection \<open>ASCII text in UTF-8\<close>

lemma uint_ascii: "(c :: jschar) \<le> 0x7F \<Longrightarrow> uint c \<le> 0x7F"
  by (simp add: word_le_def)

lemma not_surrogate_ascii:
  "(c :: jschar) \<le> 0x7F \<Longrightarrow> \<not> is_high_surrogate c \<and> \<not> is_low_surrogate c"
  by (auto simp: is_high_surrogate_def is_low_surrogate_def word_le_def)

lemma uint_byte_of_ascii:
  assumes "(c :: jschar) \<le> 0x7F"
  shows "uint (ucast c :: byte) = uint c"
proof -
  from assms have "uint c \<le> 0x7F" by (rule uint_ascii)
  moreover have "0 \<le> uint c" by simp
  ultimately have "uint c mod 2 ^ 8 = uint c" by simp
  then show ?thesis by (simp add: unsigned_ucast_eq take_bit_eq_mod)
qed

lemma jschar_of_ascii_byte:
  assumes "(c :: jschar) \<le> 0x7F"
  shows "(ucast (ucast c :: byte) :: jschar) = c"
proof (rule word_uint_eqI)
  have "uint (ucast (ucast c :: byte) :: jschar) = uint (ucast c :: byte)"
    by (rule uint_up_ucast) (simp add: is_up)
  with uint_byte_of_ascii [OF assms] show "uint (ucast (ucast c :: byte) :: jschar) = uint c"
    by simp
qed

lemma utf8_encode_ascii_Cons:
  assumes "c \<le> 0x7F"
  shows "utf8_encode (c # cs) = ucast c # utf8_encode cs"
  using assms not_surrogate_ascii [of c] uint_ascii [of c]
  by (cases cs) (simp_all add: unit_code_point_def utf8_bytes_def)

lemma utf8_step_ascii:
  assumes "(c :: jschar) \<le> 0x7F"
  shows "utf8_step utf8_start (uint (ucast c :: byte)) = ([c], utf8_start)"
proof -
  have "utf8_step utf8_start (uint c) = ([of_int (uint c)], utf8_start)"
    using uint_ascii [OF assms] by (simp add: utf8_start_def utf8_lead_def)
  then show ?thesis
    by (simp add: uint_byte_of_ascii [OF assms])
qed

definition is_ascii :: "jsstring \<Rightarrow> bool" where
  "is_ascii s = list_all (\<lambda>c. c \<le> 0x7F) s"

lemma utf8_encode_ascii: "is_ascii s \<Longrightarrow> utf8_encode s = map ucast s"
  by (induction s) (simp_all add: is_ascii_def utf8_encode_ascii_Cons)

lemma length_utf8_encode_ascii: "is_ascii s \<Longrightarrow> length (utf8_encode s) = length s"
  by (simp add: utf8_encode_ascii)

lemma utf8_decode_ascii:
  "is_ascii s \<Longrightarrow> utf8_decode utf8_start (utf8_encode s @ bs) = s @ utf8_decode utf8_start bs"
  by (induction s) (simp_all add: is_ascii_def utf8_encode_ascii_Cons utf8_step_ascii)

lemma toString_utf8_ascii:
  "is_ascii s \<Longrightarrow> toString_utf8 (utf8_encode s @ bs) = s @ toString_utf8 bs"
  by (simp add: toString_utf8_def utf8_decode_ascii)

lemma utf8_decode_empty_iff:
  "utf8_decode st bs = [] \<longleftrightarrow> bs = [] \<and> fst (snd st) = 0"
proof (induction bs arbitrary: st)
  case Nil
  show ?case by simp
next
  case (Cons b bs)
  obtain cp needed lo hi where st: "st = (cp, needed, lo, hi)"
    by (cases st) auto
  have "fst (utf8_step st (uint b)) \<noteq> [] \<or> fst (snd (snd (utf8_step st (uint b)))) \<noteq> 0"
    by (auto simp: st utf8_lead_def utf8_start_def utf16_units_def)
  with Cons.IH [of "snd (utf8_step st (uint b))"] show ?case
    by auto
qed

lemma toString_utf8_empty_iff: "toString_utf8 bs = [] \<longleftrightarrow> bs = []"
  by (simp add: toString_utf8_def utf8_decode_empty_iff utf8_start_def)


subsection \<open>Valid frames\<close>

text \<open>
  The wire format: the text \<^verbatim>\<open>Content-Length: \<close>, the length of the body in decimal
  digits, two CRLF, and the bytes of the body. A frame is valid when the digits are digits,
  there is at least one, and they denote the number of bytes of the body.
\<close>

definition header :: "jsstring \<Rightarrow> jsstring" where
  "header ds = str ''Content-Length: '' @ ds @ TWO_CRLF"

definition frame :: "jsstring \<Rightarrow> buffer \<Rightarrow> buffer" where
  "frame ds body = utf8_encode (header ds) @ body"

definition valid_frame :: "jsstring \<Rightarrow> buffer \<Rightarrow> bool" where
  "valid_frame ds body \<longleftrightarrow> ds \<noteq> [] \<and> list_all is_digit ds \<and> Number ds = int (length body)"

lemma is_digit_ascii: "is_digit c \<Longrightarrow> c \<le> 0x7F"
  by (simp add: is_digit_def word_le_def)

lemma is_digit_not_CR: "is_digit c \<Longrightarrow> c \<noteq> 0x0D"
  by (auto simp: is_digit_def)

lemma is_ascii_append: "is_ascii (s @ t) \<longleftrightarrow> is_ascii s \<and> is_ascii t"
  by (simp add: is_ascii_def)

lemma is_ascii_digits: "list_all is_digit ds \<Longrightarrow> is_ascii ds"
  by (induction ds) (simp_all add: is_ascii_def is_digit_ascii)

lemma is_ascii_header: "list_all is_digit ds \<Longrightarrow> is_ascii (header ds)"
  by (simp add: header_def is_ascii_append is_ascii_digits)
     (simp add: is_ascii_def str_def TWO_CRLF_def)

lemma length_header: "length (header ds) = 20 + length ds"
  by (simp add: header_def str_def TWO_CRLF_def)

lemma indexOf_first:
  "0x0D \<notin> set h \<Longrightarrow> indexOf (h @ TWO_CRLF @ t) TWO_CRLF = int (length h)"
proof (induction h)
  case Nil
  show ?case by (simp add: TWO_CRLF_def)
next
  case (Cons c h)
  then have "\<not> prefix TWO_CRLF (c # h @ TWO_CRLF @ t)"
    by (auto simp: TWO_CRLF_def)
  with Cons show ?case by simp
qed

lemma indexOf_short: "k < 4 \<Longrightarrow> indexOf (take k TWO_CRLF) TWO_CRLF = - 1"
proof -
  assume "k < 4"
  then consider "k = 0" | "k = 1" | "k = 2" | "k = 3" by linarith
  then show ?thesis
    by cases (simp_all add: TWO_CRLF_def)
qed

lemma indexOf_none:
  "0x0D \<notin> set h \<Longrightarrow> k < length h + 4 \<Longrightarrow> indexOf (take k (h @ TWO_CRLF)) TWO_CRLF = - 1"
proof (induction h arbitrary: k)
  case Nil
  then show ?case by (simp add: indexOf_short)
next
  case (Cons c h)
  show ?case
  proof (cases k)
    case 0
    then show ?thesis by (simp add: TWO_CRLF_def)
  next
    case (Suc j)
    from Cons.prems have "\<not> prefix TWO_CRLF (c # take j (h @ TWO_CRLF))"
      by (auto simp: TWO_CRLF_def)
    moreover from Cons.prems Suc have "indexOf (take j (h @ TWO_CRLF)) TWO_CRLF = - 1"
      by (intro Cons.IH) simp_all
    ultimately show ?thesis using Suc by simp
  qed
qed

lemma no_CR_in_header:
  "list_all is_digit ds \<Longrightarrow> 0x0D \<notin> set (str ''Content-Length: '' @ ds)"
  by (auto simp: str_def list_all_iff dest: is_digit_not_CR)

lemma indexOf_header:
  assumes "list_all is_digit ds"
  shows "indexOf (header ds @ t) TWO_CRLF = int (16 + length ds)"
  using indexOf_first [OF no_CR_in_header [OF assms], of t]
  by (simp add: header_def str_def)

lemma indexOf_header_part:
  assumes "list_all is_digit ds" and "k < length (header ds)"
  shows "indexOf (take k (header ds)) TWO_CRLF = - 1"
  using indexOf_none [OF no_CR_in_header [OF assms(1)], of k] assms(2)
  by (simp add: header_def str_def TWO_CRLF_def)

lemma takeWhile_digits:
  "list_all is_digit ds \<Longrightarrow> takeWhile is_digit (ds @ TWO_CRLF @ t) = ds"
  by (induction ds) (simp_all add: TWO_CRLF_def is_digit_def)

lemma exec_Content_Length_header:
  assumes "list_all is_digit ds" and "ds \<noteq> []"
  shows "exec_Content_Length (header ds @ t) = Some ds"
  using assms takeWhile_digits [OF assms(1), of t]
  by (simp add: header_def str_def)


subsection \<open>A turn of the loop, case by case\<close>

text \<open>What the loop does with a body it has cut out of the buffer.\<close>

definition deliver :: "buffer \<Rightarrow> 'cb protocol \<Rightarrow> 'cb protocol" where
  "deliver body st =
     (if length (toString_utf8 body) > 0 then dispatch (toString_utf8 body) st else st)"

lemma is_ascii_take: "is_ascii s \<Longrightarrow> is_ascii (take k s)"
  by (auto simp: is_ascii_def list_all_iff dest: in_set_takeD)

lemma toString_utf8_header_part:
  assumes "list_all is_digit ds"
  shows "toString_utf8 (take k (utf8_encode (header ds))) = take k (header ds)"
proof -
  have ascii: "is_ascii (take k (header ds))"
    by (rule is_ascii_take) (rule is_ascii_header [OF assms])
  have "take k (utf8_encode (header ds)) = utf8_encode (take k (header ds))"
    by (simp add: utf8_encode_ascii [OF is_ascii_header [OF assms]]
        utf8_encode_ascii [OF ascii] take_map)
  with toString_utf8_ascii [OF ascii, of "[]"] show ?thesis
    by (simp add: toString_utf8_def utf8_start_def)
qed

lemma length_TWO_CRLF: "length TWO_CRLF = 4"
  by (simp add: TWO_CRLF_def)

lemma handleData_step_header_complete:
  assumes "\<not> contentLength st \<ge> 0" and "list_all is_digit ds" and "ds \<noteq> []"
    and "rawData st = utf8_encode (header ds) @ r"
  shows "handleData_step st = Some (st\<lparr>contentLength := Number ds, rawData := r\<rparr>)"
proof -
  let ?s = "toString_utf8 (rawData st)"
  have s: "?s = header ds @ toString_utf8 r"
    by (simp add: assms(4) toString_utf8_ascii [OF is_ascii_header [OF assms(2)]])
  have idx: "indexOf ?s TWO_CRLF = int (16 + length ds)"
    unfolding s by (rule indexOf_header [OF assms(2)])
  have match: "exec_Content_Length ?s = Some ds"
    unfolding s by (rule exec_Content_Length_header [OF assms(2,3)])
  have "nat (indexOf ?s TWO_CRLF + int (length TWO_CRLF)) = length (utf8_encode (header ds))"
    unfolding idx
    by (simp add: length_TWO_CRLF length_header
        length_utf8_encode_ascii [OF is_ascii_header [OF assms(2)]])
  then have "drop (nat (indexOf ?s TWO_CRLF + int (length TWO_CRLF))) (rawData st) = r"
    by (simp add: assms(4))
  with assms(1) idx match show ?thesis
    by (simp add: handleData_step_def Let_def)
qed

lemma handleData_step_header_incomplete:
  assumes "\<not> contentLength st \<ge> 0" and "list_all is_digit ds"
    and "rawData st = take k (utf8_encode (header ds))" and "k < length (header ds)"
  shows "handleData_step st = None"
  using assms(1)
  by (simp add: handleData_step_def assms(3) toString_utf8_header_part [OF assms(2)]
      indexOf_header_part [OF assms(2,4)])

lemma handleData_step_body_complete:
  assumes "contentLength st = int (length b)" and "rawData st = b @ r"
  shows "handleData_step st = Some (deliver b (st\<lparr>rawData := r, contentLength := - 1\<rparr>))"
  by (simp add: handleData_step_def assms deliver_def)

lemma handleData_step_body_incomplete:
  assumes "contentLength st \<ge> 0" and "int (length (rawData st)) < contentLength st"
  shows "handleData_step st = None"
  using assms by (simp add: handleData_step_def)


lemma dispatch_rawData_update:
  "dispatch body (st\<lparr>rawData := x\<rparr>) = (dispatch body st)\<lparr>rawData := x\<rparr>"
  by (simp add: dispatch_def fire_def split: sum.split option.split)

lemma deliver_rawData_update:
  "deliver b (st\<lparr>rawData := x\<rparr>) = (deliver b st)\<lparr>rawData := x\<rparr>"
  by (simp add: deliver_def dispatch_rawData_update)

lemma contentLength_deliver [simp]: "contentLength (deliver b st) = contentLength st"
  by (simp add: deliver_def)

lemma rawData_deliver [simp]: "rawData (deliver b st) = rawData st"
  by (simp add: deliver_def)

lemma prefix_long:
  assumes "prefix w (h @ t)" and "length h \<le> length w"
  shows "\<exists>r. w = h @ r \<and> prefix r t"
proof -
  from assms(1) have "prefix w h \<or> (\<exists>us. w = h @ us \<and> prefix us t)"
    by (simp add: prefix_append)
  then show ?thesis
  proof
    assume "prefix w h"
    with assms(2) have "w = h"
      by (auto simp: prefix_def)
    then show ?thesis by simp
  qed
qed

lemma prefix_short:
  assumes "prefix w (h @ t)" and "length w < length h"
  shows "w = take (length w) h"
proof -
  from assms(1) have "prefix w h \<or> (\<exists>us. w = h @ us \<and> prefix us t)"
    by (simp add: prefix_append)
  with assms(2) have "prefix w h" by auto
  then show ?thesis by (auto simp: prefix_def)
qed

subsection \<open>A stream of valid frames, received piece by piece\<close>

text \<open>
  \<open>stream\<close> is the concatenation of frames. \<open>receive frames p st\<close> is the state
  expected once the first bytes \<open>p\<close> of the stream have arrived, in whatever pieces:
  the bodies of the frames that are complete in \<open>p\<close> have been delivered in order, and
  the buffer holds the unfinished frame, as a partial header or, after a full header, as a
  partial body with its length recorded.
\<close>

fun stream :: "(jsstring \<times> buffer) list \<Rightarrow> buffer" where
  "stream [] = []"
| "stream ((ds, b) # fs) = frame ds b @ stream fs"

fun receive :: "(jsstring \<times> buffer) list \<Rightarrow> buffer \<Rightarrow> 'cb protocol \<Rightarrow> 'cb protocol" where
  "receive [] p st = st\<lparr>rawData := p\<rparr>"
| "receive ((ds, b) # fs) p st =
     (if length p < length (header ds) then st\<lparr>rawData := p\<rparr>
      else if length p < length (header ds) + length b then
        st\<lparr>contentLength := int (length b), rawData := drop (length (header ds)) p\<rparr>
      else receive fs (drop (length (header ds) + length b) p) (deliver b st))"

lemma receive_Nil: "receive fs [] st = st\<lparr>rawData := []\<rparr>"
  by (cases fs) (auto simp: length_header)

lemma handleData_Some: "handleData_step st = Some st' \<Longrightarrow> handleData st = handleData st'"
  by (simp add: handleData.simps [of st])

lemma handleData_None: "handleData_step st = None \<Longrightarrow> handleData st = st"
  by (simp add: handleData.simps [of st])

lemma handleData_empty:
  "\<not> contentLength st \<ge> 0 \<Longrightarrow> rawData st = [] \<Longrightarrow> handleData st = st"
  by (simp add: handleData.simps [of st] handleData_step_def toString_utf8_def utf8_start_def
      TWO_CRLF_def)

lemma handleData_receive:
  assumes "\<forall>(ds, b) \<in> set fs. valid_frame ds b"
    and "contentLength st = - 1"
    and "prefix (p @ q) (stream fs)"
  shows "handleData ((receive fs p st)\<lparr>rawData := rawData (receive fs p st) @ q\<rparr>)
           = receive fs (p @ q) st"
  using assms
proof (induction fs arbitrary: p q st)
  case Nil
  then show ?case by (simp add: handleData_empty)
next
  case (Cons f fs)
  obtain ds b where f: "f = (ds, b)" by (cases f)
  let ?H = "utf8_encode (header ds)"
  from Cons.prems(1) f have digits: "list_all is_digit ds" and nonempty: "ds \<noteq> []"
    and number: "Number ds = int (length b)"
    and rest_valid: "\<forall>(ds, b) \<in> set fs. valid_frame ds b"
    by (auto simp: valid_frame_def)
  have lenH: "length ?H = length (header ds)"
    by (rule length_utf8_encode_ascii [OF is_ascii_header [OF digits]])
  from Cons.prems(3) f have pre: "prefix (p @ q) (?H @ b @ stream fs)"
    by (simp add: frame_def)
  have header_mode: "\<not> contentLength st \<ge> 0"
    using Cons.prems(2) by simp
  have body: "handleData (st\<lparr>contentLength := int (length b), rawData := r\<rparr>)
                = receive ((ds, b) # fs) (?H @ r) st"
    if r: "prefix r (b @ stream fs)" for r
  proof (cases "length r < length b")
    case True
    then have "handleData_step (st\<lparr>contentLength := int (length b), rawData := r\<rparr>) = None"
      by (intro handleData_step_body_incomplete) simp_all
    from handleData_None [OF this] True show ?thesis
      by (simp add: lenH)
  next
    case False
    with prefix_long [OF r] obtain r' where r': "r = b @ r'" "prefix r' (stream fs)"
      by auto
    have "handleData_step (st\<lparr>contentLength := int (length b), rawData := r\<rparr>)
            = Some (deliver b (st\<lparr>contentLength := int (length b), rawData := r\<rparr>
                               \<lparr>rawData := r', contentLength := - 1\<rparr>))"
      by (rule handleData_step_body_complete) (simp_all add: r')
    also have "st\<lparr>contentLength := int (length b), rawData := r\<rparr>
                 \<lparr>rawData := r', contentLength := - 1\<rparr> = st\<lparr>rawData := r'\<rparr>"
      using Cons.prems(2) by simp
    finally have step: "handleData_step (st\<lparr>contentLength := int (length b), rawData := r\<rparr>)
            = Some ((deliver b st)\<lparr>rawData := r'\<rparr>)"
      by (simp add: deliver_rawData_update)
    have "handleData ((receive fs [] (deliver b st))
              \<lparr>rawData := rawData (receive fs [] (deliver b st)) @ r'\<rparr>)
            = receive fs ([] @ r') (deliver b st)"
      by (rule Cons.IH) (simp_all add: rest_valid Cons.prems(2) r')
    then have "handleData ((deliver b st)\<lparr>rawData := r'\<rparr>) = receive fs r' (deliver b st)"
      by (simp add: receive_Nil)
    with handleData_Some [OF step] show ?thesis
      by (simp add: lenH r')
  qed
  consider (head) "length p < length ?H" | (mid) "length ?H \<le> length p" "length p < length ?H + length b"
    | (tail) "length ?H + length b \<le> length p"
    by linarith
  then show ?case
  proof cases
    case head
    then have state: "(receive (f # fs) p st)\<lparr>rawData := rawData (receive (f # fs) p st) @ q\<rparr>
                 = st\<lparr>rawData := p @ q\<rparr>"
      by (simp add: f lenH)
    show ?thesis
    proof (cases "length (p @ q) < length ?H")
      case True
      from prefix_short [OF pre True] have "p @ q = take (length (p @ q)) ?H" .
      then have "handleData_step (st\<lparr>rawData := p @ q\<rparr>) = None"
        using True header_mode digits
        by (intro handleData_step_header_incomplete [where ds = ds and k = "length (p @ q)"])
           (simp_all add: lenH)
      from handleData_None [OF this] True show ?thesis
        by (simp add: state f lenH)
    next
      case False
      with prefix_long [OF pre] obtain r where r: "p @ q = ?H @ r" "prefix r (b @ stream fs)"
        by auto
      have "handleData_step (st\<lparr>rawData := p @ q\<rparr>)
              = Some (st\<lparr>rawData := p @ q\<rparr>\<lparr>contentLength := Number ds, rawData := r\<rparr>)"
        using header_mode digits nonempty
        by (intro handleData_step_header_complete) (simp_all add: r)
      from handleData_Some [OF this] have "handleData (st\<lparr>rawData := p @ q\<rparr>)
              = handleData (st\<lparr>contentLength := int (length b), rawData := r\<rparr>)"
        by (simp add: number)
      with body [OF r(2)] show ?thesis
        unfolding state by (simp only: r(1) f)
    qed
  next
    case mid
    with prefix_long [of p "?H" "b @ stream fs"] pre obtain r0 where r0: "p = ?H @ r0"
      by (metis append_prefixD)
    with mid have short: "length r0 < length b" by simp
    from pre r0 have r: "prefix (r0 @ q) (b @ stream fs)" by simp
    from mid have state: "(receive (f # fs) p st)\<lparr>rawData := rawData (receive (f # fs) p st) @ q\<rparr>
                 = st\<lparr>contentLength := int (length b), rawData := r0 @ q\<rparr>"
      by (simp add: f lenH r0)
    from body [OF r] show ?thesis
      unfolding state by (simp only: r0 f append_assoc)
  next
    case tail
    with prefix_long [of p "?H @ b" "stream fs"] pre obtain p' where p': "p = ?H @ b @ p'"
      by (metis append.assoc append_prefixD length_append)
    with pre have pre': "prefix (p' @ q) (stream fs)" by simp
    have "handleData ((receive fs p' (deliver b st))
              \<lparr>rawData := rawData (receive fs p' (deliver b st)) @ q\<rparr>)
            = receive fs (p' @ q) (deliver b st)"
      by (rule Cons.IH) (simp_all add: rest_valid Cons.prems(2) pre')
    then show ?thesis
      by (simp add: f p' lenH)
  qed
qed


lemma rawData_foldl_deliver [simp]:
  "rawData (foldl (\<lambda>s b. deliver b s) st bs) = rawData st"
  by (induction bs arbitrary: st) simp_all

lemma receive_stream:
  "\<forall>(ds, b) \<in> set fs. valid_frame ds b \<Longrightarrow>
   receive fs (stream fs) st = (foldl (\<lambda>s b. deliver b s) st (map snd fs))\<lparr>rawData := []\<rparr>"
proof (induction fs arbitrary: st)
  case Nil
  show ?case by simp
next
  case (Cons f fs)
  obtain ds b where f: "f = (ds, b)" by (cases f)
  from Cons.prems f have "list_all is_digit ds"
    by (simp add: valid_frame_def)
  then have "length (utf8_encode (header ds)) = length (header ds)"
    by (intro length_utf8_encode_ascii is_ascii_header)
  with Cons show ?case
    by (simp add: f frame_def)
qed

lemma onData_chunks:
  assumes "\<forall>(ds, b) \<in> set fs. valid_frame ds b" and "contentLength st = - 1"
    and "prefix (p @ concat chunks) (stream fs)"
  shows "foldl (\<lambda>s c. onData c s) (receive fs p st) chunks = receive fs (p @ concat chunks) st"
  using assms(3)
proof (induction chunks arbitrary: p)
  case Nil
  show ?case by simp
next
  case (Cons c chunks)
  from Cons.prems have "prefix (p @ c) (stream fs)"
    by (metis append.assoc append_prefixD concat.simps(2))
  with assms(1,2) have "onData c (receive fs p st) = receive fs (p @ c) st"
    unfolding onData_def by (rule handleData_receive)
  moreover from Cons.prems
  have "foldl (\<lambda>s c. onData c s) (receive fs (p @ c) st) chunks
          = receive fs ((p @ c) @ concat chunks) st"
    by (intro Cons.IH) simp
  ultimately show ?case by simp
qed

lemma deliver_nonempty: "b \<noteq> [] \<Longrightarrow> deliver b st = dispatch (toString_utf8 b) st"
  by (simp add: deliver_def toString_utf8_empty_iff)

lemma foldl_deliver_dispatch:
  "\<forall>b \<in> set bs. b \<noteq> [] \<Longrightarrow>
   foldl (\<lambda>s b. deliver b s) st bs = foldl (\<lambda>s b. dispatch (toString_utf8 b) s) st bs"
  by (induction bs arbitrary: st) (simp_all add: deliver_nonempty)

lemma rawData_update_same: "rawData st = x \<Longrightarrow> st\<lparr>rawData := x\<rparr> = st"
  by auto

lemma onData_stream:
  assumes "\<forall>(ds, b) \<in> set frames. valid_frame ds b \<and> b \<noteq> []"
    and "rawData st = []" and "contentLength st = - 1"
  shows "onData (stream frames) st
           = foldl (\<lambda>s b. dispatch (toString_utf8 b) s) st (map snd frames)"
proof -
  from assms(1) have valid: "\<forall>(ds, b) \<in> set frames. valid_frame ds b"
    and nonempty: "\<forall>b \<in> set (map snd frames). b \<noteq> []"
    by auto
  from assms(2) have start: "receive frames [] st = st"
    by (simp add: receive_Nil)
  have "rawData (foldl (\<lambda>s b. deliver b s) st (map snd frames)) = []"
    by (simp add: assms(2))
  then have "(foldl (\<lambda>s b. deliver b s) st (map snd frames))\<lparr>rawData := []\<rparr>
               = foldl (\<lambda>s b. deliver b s) st (map snd frames)"
    by (rule rawData_update_same)
  with receive_stream [OF valid, of st] foldl_deliver_dispatch [OF nonempty, of st]
  have all: "receive frames (stream frames) st
               = foldl (\<lambda>s b. dispatch (toString_utf8 b) s) st (map snd frames)"
    by simp
  have "foldl (\<lambda>s c. onData c s) (receive frames [] st) [stream frames]
          = receive frames ([] @ concat [stream frames]) st"
    by (rule onData_chunks [OF valid assms(3)]) simp
  with all show ?thesis
    by (simp add: start)
qed

text \<open>
  Claim C3. For a sequence of valid frames with non-empty bodies, arriving at a transport
  that awaits a header with an empty buffer: however the bytes of the concatenated frames
  are cut into chunks, feeding the chunks one at a time leaves the transport in the same
  state, with the same signals in the same order, as feeding all bytes as one chunk; and
  that state is the one reached by dispatching the bodies of the frames, each once, in
  order.
\<close>

theorem chunking_invariance:
  assumes "\<forall>(ds, b) \<in> set frames. valid_frame ds b \<and> b \<noteq> []"
    and "rawData st = []" and "contentLength st = - 1"
    and "concat chunks = stream frames"
  shows "foldl (\<lambda>s c. onData c s) st chunks = onData (stream frames) st \<and>
         onData (stream frames) st
           = foldl (\<lambda>s b. dispatch (toString_utf8 b) s) st (map snd frames)"
proof -
  from assms(1) have valid: "\<forall>(ds, b) \<in> set frames. valid_frame ds b"
    by auto
  from assms(2) have start: "receive frames [] st = st"
    by (simp add: receive_Nil)
  have "foldl (\<lambda>s c. onData c s) (receive frames [] st) chunks
          = receive frames ([] @ concat chunks) st"
    by (rule onData_chunks [OF valid assms(3)]) (simp add: assms(4))
  moreover have "foldl (\<lambda>s c. onData c s) (receive frames [] st) [stream frames]
          = receive frames ([] @ concat [stream frames]) st"
    by (rule onData_chunks [OF valid assms(3)]) simp
  ultimately have "foldl (\<lambda>s c. onData c s) st chunks = onData (stream frames) st"
    by (simp add: start assms(4))
  with onData_stream [OF assms(1,2,3)] show ?thesis
    by simp
qed

text \<open>Two frames cut into three chunks, inside a header and inside a body.\<close>

definition two_frames :: "(jsstring \<times> buffer) list" where
  \<open>two_frames =
     [(str ''16'', bytes ''{"type":"event"}''), (str ''18'', bytes ''{"type":"request"}'')]\<close>

definition three_chunks :: "buffer list" where
  \<open>three_chunks =
     [bytes ''Content-Len'',
      bytes ''gth: 16'' @ [13, 10, 13, 10] @ bytes ''{"type":"ev'',
      bytes ''ent"}Content-Length: 18'' @ [13, 10, 13, 10] @ bytes ''{"type":"request"}'']\<close>

lemma two_frames_valid: "\<forall>(ds, b) \<in> set two_frames. valid_frame ds b \<and> b \<noteq> []"
  by (simp add: two_frames_def valid_frame_def str_def bytes_def is_digit_def Number_def)

lemma three_chunks_stream: "concat three_chunks = stream two_frames"
  unfolding three_chunks_def two_frames_def by code_simp

theorem chunking_invariance_witness:
  "foldl (\<lambda>s c. onData c s) (constructor :: nat protocol) three_chunks
     = onData (stream two_frames) constructor \<and>
   onData (stream two_frames) (constructor :: nat protocol)
     = foldl (\<lambda>s b. dispatch (toString_utf8 b) s) constructor (map snd two_frames)"
  using chunking_invariance [OF two_frames_valid _ _ three_chunks_stream,
      of "constructor :: nat protocol"]
  by (simp add: constructor_def)


section \<open>Dispatch\<close>

lemma dispatch_malformed:
  "JSON_parse body = Inl e \<Longrightarrow> dispatch body st = fire (Fire_onError (error_text e)) st"
  by (simp add: dispatch_def)


text \<open>
  Claim C7. When the bytes \<open>b\<close> of a body do not decode to JSON, \<^verbatim>\<open>dispatch\<close>
  fires one event on the error emitter and changes nothing else, so the receive buffer and
  the pending table are as before. When \<open>b\<close> is the non-empty body of a valid frame
  at the head of the buffer (an empty body is never handed to \<^verbatim>\<open>dispatch\<close>) and
  valid frames follow it, each of them is decoded and dispatched, in order, after the
  error.
\<close>

theorem malformed_payload_reported:
  assumes "JSON_parse (toString_utf8 b) = Inl e"
  shows "dispatch (toString_utf8 b) st = fire (Fire_onError (error_text e)) st \<and>
         rawData (dispatch (toString_utf8 b) st) = rawData st \<and>
         pendingRequests (dispatch (toString_utf8 b) st) = pendingRequests st \<and>
         (valid_frame ds b \<and> b \<noteq> [] \<and>
          (\<forall>(ds, b) \<in> set frames. valid_frame ds b \<and> b \<noteq> []) \<and>
          rawData st = [] \<and> contentLength st = - 1 \<longrightarrow>
          onData (frame ds b @ stream frames) st
            = foldl (\<lambda>s b. dispatch (toString_utf8 b) s)
                (fire (Fire_onError (error_text e)) st) (map snd frames))"
proof -
  have d: "dispatch (toString_utf8 b) st = fire (Fire_onError (error_text e)) st"
    by (rule dispatch_malformed [OF assms])
  have "onData (frame ds b @ stream frames) st
           = foldl (\<lambda>s b. dispatch (toString_utf8 b) s)
               (fire (Fire_onError (error_text e)) st) (map snd frames)"
    if framed: "valid_frame ds b \<and> b \<noteq> [] \<and>
          (\<forall>(ds, b) \<in> set frames. valid_frame ds b \<and> b \<noteq> []) \<and>
          rawData st = [] \<and> contentLength st = - 1"
  proof -
    from framed have "\<forall>(ds, b) \<in> set ((ds, b) # frames). valid_frame ds b \<and> b \<noteq> []"
      by simp
    moreover from framed have "rawData st = []" and "contentLength st = - 1"
      by simp_all
    ultimately have "onData (stream ((ds, b) # frames)) st
           = foldl (\<lambda>s b. dispatch (toString_utf8 b) s) st (map snd ((ds, b) # frames))"
      by (rule onData_stream)
    with d show ?thesis by simp
  qed
  with d show ?thesis
    by (simp add: fire_def)
qed

text \<open>A frame with the body \<^verbatim>\<open>{oops\<close>, followed by an event.\<close>

definition bad_frame :: "jsstring \<times> buffer" where
  \<open>bad_frame = (str ''5'', bytes ''{oops'')\<close>

definition good_frames :: "(jsstring \<times> buffer) list" where
  \<open>good_frames = [(str ''16'', bytes ''{"type":"event"}'')]\<close>

lemma bad_frame_valid: "valid_frame (fst bad_frame) (snd bad_frame) \<and> snd bad_frame \<noteq> []"
  by (simp add: bad_frame_def valid_frame_def str_def bytes_def is_digit_def Number_def)

lemma bad_frame_malformed:
  "JSON_parse (toString_utf8 (snd bad_frame)) = Inl (SyntaxError (str ''Unexpected token in JSON''))"
  unfolding bad_frame_def by code_simp

lemma good_frames_valid: "\<forall>(ds, b) \<in> set good_frames. valid_frame ds b \<and> b \<noteq> []"
  by (simp add: good_frames_def valid_frame_def str_def bytes_def is_digit_def Number_def)

lemma good_frames_event:
  "foldl (\<lambda>s b. dispatch (toString_utf8 b) s) st (map snd good_frames)
     = fire (Fire_onEvent (JObj [(str ''type'', JStr (str ''event''))])) st"
proof -
  have \<open>toString_utf8 (bytes ''{"type":"event"}'') = str ''{"type":"event"}''\<close>
    by code_simp
  moreover have \<open>JSON_parse (str ''{"type":"event"}'') = Inr (JObj [(str ''type'', JStr (str ''event''))])\<close>
    by code_simp
  ultimately show ?thesis
    by (simp add: good_frames_def dispatch_def obj_get_def)
qed

theorem malformed_payload_reported_witness:
  "signals (onData (frame (fst bad_frame) (snd bad_frame) @ stream good_frames)
      (constructor :: nat protocol))
     = [Fire_onError (str ''Unexpected token in JSON''),
        Fire_onEvent (JObj [(str ''type'', JStr (str ''event''))])]"
  using malformed_payload_reported [OF bad_frame_malformed, of "constructor :: nat protocol"
      "fst bad_frame" good_frames] bad_frame_valid good_frames_valid
  by (simp add: constructor_def good_frames_event fire_def error_text_def str_def)



lemma obj_get_obj_set [simp]: "obj_get (obj_set name v props) name = Some v"
  by (induction props) (auto simp: obj_get_def)

lemma sendMessage_seq:
  "obj_get (fst (sendMessage t message st)) (str ''seq'') = Some (JNum (sequence st))"
  by (simp add: sendMessage_def Let_def)

lemma pendingRequests_sendMessage [simp]:
  "pendingRequests (snd (sendMessage t message st)) = pendingRequests st"
  by (simp add: sendMessage_def Let_def stream_write_def)

lemma signals_sendMessage [simp]:
  "signals (snd (sendMessage t message st)) = signals st"
  by (simp add: sendMessage_def Let_def stream_write_def)

lemma pendingRequests_sendRequest:
  "pendingRequests (sendRequest command args (Some clb) st)
     = (pendingRequests st)(sequence st \<mapsto> clb)"
  using sendMessage_seq [of "str ''request''" "new_request command args" st]
  by (simp add: sendRequest_def split_beta)

lemma signals_sendRequest [simp]:
  "signals (sendRequest command args clb st) = signals st"
  by (simp add: sendRequest_def split_beta split: option.split json.split)

lemma dispatch_response:
  assumes "JSON_parse body = Inr data"
    and "get_property data (str ''type'') = Inr (Some (JStr (str ''response'')))"
    and "get_property data (str ''request_seq'') = Inr rs"
  shows "dispatch body st =
           (case pending_get (pendingRequests st) rs of
              Some clb \<Rightarrow>
                st\<lparr>pendingRequests := pending_delete (pendingRequests st) rs,
                    signals := signals st @ [Invoke clb data]\<rparr>
            | None \<Rightarrow> st)"
  using assms by (simp add: dispatch_def fire_def str_def split: option.split)

text \<open>
  Claim C2. \<^verbatim>\<open>sendRequest\<close> with a callback stores it under the number the request
  is sent with. A decoded response whose \<^verbatim>\<open>request_seq\<close> is a number with an entry
  in the pending table invokes that callback once, with the response, and removes the
  entry, so that the same response arriving again changes nothing. A decoded response whose
  \<^verbatim>\<open>request_seq\<close> finds no entry changes nothing: no callback, no error.
\<close>

theorem response_correlation:
  assumes "JSON_parse body = Inr data"
    and "get_property data (str ''type'') = Inr (Some (JStr (str ''response'')))"
    and "get_property data (str ''request_seq'') = Inr rs"
  shows "pendingRequests (sendRequest command args (Some clb) st0)
           = (pendingRequests st0)(sequence st0 \<mapsto> clb) \<and>
         (rs = Some (JNum k) \<and> pendingRequests st k = Some clb \<longrightarrow>
            dispatch body st
              = st\<lparr>pendingRequests := (pendingRequests st)(k := None),
                    signals := signals st @ [Invoke clb data]\<rparr> \<and>
            dispatch body (dispatch body st) = dispatch body st) \<and>
         (pending_get (pendingRequests st) rs = None \<longrightarrow> dispatch body st = st) \<and>
         (rs = Some (JNum (sequence st0)) \<longrightarrow>
            signals (dispatch body (sendRequest command args (Some clb) st0))
              = signals st0 @ [Invoke clb data] \<and>
            pendingRequests (dispatch body (sendRequest command args (Some clb) st0))
              (sequence st0) = None)"
proof (intro conjI impI)
  show "pendingRequests (sendRequest command args (Some clb) st0)
           = (pendingRequests st0)(sequence st0 \<mapsto> clb)"
    by (rule pendingRequests_sendRequest)
next
  assume "rs = Some (JNum k) \<and> pendingRequests st k = Some clb"
  then show "dispatch body st
              = st\<lparr>pendingRequests := (pendingRequests st)(k := None),
                    signals := signals st @ [Invoke clb data]\<rparr>"
    by (simp add: dispatch_response [OF assms])
next
  assume "rs = Some (JNum k) \<and> pendingRequests st k = Some clb"
  then show "dispatch body (dispatch body st) = dispatch body st"
    by (simp add: dispatch_response [OF assms])
next
  assume "pending_get (pendingRequests st) rs = None"
  then show "dispatch body st = st"
    by (simp add: dispatch_response [OF assms])
next
  assume "rs = Some (JNum (sequence st0))"
  then show "signals (dispatch body (sendRequest command args (Some clb) st0))
              = signals st0 @ [Invoke clb data]"
    by (simp add: dispatch_response [OF assms] pendingRequests_sendRequest)
next
  assume "rs = Some (JNum (sequence st0))"
  then show "pendingRequests (dispatch body (sendRequest command args (Some clb) st0))
              (sequence st0) = None"
    by (simp add: dispatch_response [OF assms] pendingRequests_sendRequest)
qed

text \<open>The request and the response of the scenario in the specification.\<close>

definition evaluate_response :: jsstring where
  \<open>evaluate_response = str ''{"seq":1,"type":"response","request_seq":1,"command":"evaluate","success":true,"body":{"result":"2"}}''\<close>

definition evaluate_response_data :: json where
  "evaluate_response_data =
     JObj [(str ''seq'', JNum 1), (str ''type'', JStr (str ''response'')),
           (str ''request_seq'', JNum 1), (str ''command'', JStr (str ''evaluate'')),
           (str ''success'', JBool True),
           (str ''body'', JObj [(str ''result'', JStr (str ''2''))])]"

lemma evaluate_response_parse: "JSON_parse evaluate_response = Inr evaluate_response_data"
  unfolding evaluate_response_def evaluate_response_data_def by code_simp

lemma evaluate_response_type:
  "get_property evaluate_response_data (str ''type'') = Inr (Some (JStr (str ''response'')))"
  unfolding evaluate_response_data_def by code_simp

lemma evaluate_response_request_seq:
  "get_property evaluate_response_data (str ''request_seq'') = Inr (Some (JNum 1))"
  unfolding evaluate_response_data_def by code_simp

definition evaluate_sent :: "nat protocol" where
  "evaluate_sent =
     sendRequest (str ''evaluate'') (Some (JObj [(str ''expr'', JStr (str ''1+1''))]))
       (Some 7) constructor"

theorem response_correlation_witness:
  "pendingRequests evaluate_sent 1 = Some 7 \<and>
   signals (dispatch evaluate_response evaluate_sent) = [Invoke 7 evaluate_response_data] \<and>
   pendingRequests (dispatch evaluate_response evaluate_sent) 1 = None \<and>
   dispatch evaluate_response (dispatch evaluate_response evaluate_sent)
     = dispatch evaluate_response evaluate_sent"
proof -
  note correlation = response_correlation [OF evaluate_response_parse evaluate_response_type
      evaluate_response_request_seq,
      of "str ''evaluate''" "Some (JObj [(str ''expr'', JStr (str ''1+1''))])" 7
         "constructor :: nat protocol" 1 evaluate_sent]
  have start: "sequence (constructor :: nat protocol) = 1"
    "signals (constructor :: nat protocol) = []"
    by (simp_all add: constructor_def)
  from correlation have registered: "pendingRequests evaluate_sent 1 = Some 7"
    by (simp add: evaluate_sent_def start)
  with correlation have
    "dispatch evaluate_response (dispatch evaluate_response evaluate_sent)
       = dispatch evaluate_response evaluate_sent"
    by blast
  moreover from correlation have
    "signals (dispatch evaluate_response evaluate_sent) = [Invoke 7 evaluate_response_data]"
    "pendingRequests (dispatch evaluate_response evaluate_sent) 1 = None"
    by (simp_all add: evaluate_sent_def start)
  ultimately show ?thesis
    using registered by simp
qed

text \<open>
  Claim C10, as stated, fails for the body \<^verbatim>\<open>null\<close>. It parses as JSON, it has no
  \<^verbatim>\<open>type\<close> that is one of the three, and reading \<^verbatim>\<open>rawData.type\<close> throws
  inside the \<^verbatim>\<open>try\<close>, so the error emitter fires.
\<close>

theorem dispatch_null_counterexample:
  "JSON_parse (str ''null'') = Inr JNull \<and>
   signals (onData (bytes ''Content-Length: 4'' @ [13, 10, 13, 10] @ bytes ''null'')
              (constructor :: nat protocol))
     = [Fire_onError (str ''Cannot read property type of null'')]"
  by code_simp

lemma get_property_not_null:
  "data \<noteq> JNull \<Longrightarrow> \<exists>v. get_property data name = Inr v"
  by (cases data) simp_all

text \<open>
  Claim C10, amended. A body that parses as a JSON value other than \<^verbatim>\<open>null\<close> and
  whose \<^verbatim>\<open>type\<close> is none of \<^verbatim>\<open>"event"\<close>, \<^verbatim>\<open>"response"\<close> and
  \<^verbatim>\<open>"request"\<close> (or is missing) leaves the transport as it was: nothing is fired on
  any emitter, no callback is invoked, the pending table is unchanged.
\<close>

theorem dispatch_unknown_type:
  assumes "JSON_parse body = Inr data" and "data \<noteq> JNull"
    and "get_property data (str ''type'') \<noteq> Inr (Some (JStr (str ''event'')))"
    and "get_property data (str ''type'') \<noteq> Inr (Some (JStr (str ''response'')))"
    and "get_property data (str ''type'') \<noteq> Inr (Some (JStr (str ''request'')))"
  shows "dispatch body st = st"
proof -
  from get_property_not_null [OF assms(2)] obtain t
    where "get_property data (str ''type'') = Inr t" by blast
  with assms show ?thesis
    by (simp add: dispatch_def)
qed

lemma telemetry_parse:
  \<open>JSON_parse (str ''{"type":"telemetry"}'')
     = Inr (JObj [(str ''type'', JStr (str ''telemetry''))])\<close>
  by code_simp

theorem dispatch_unknown_type_witness:
  \<open>dispatch (str ''{"type":"telemetry"}'') (constructor :: nat protocol) = constructor\<close>
  using dispatch_unknown_type [OF telemetry_parse, of "constructor :: nat protocol"]
  by (simp add: obj_get_def str_def)


section \<open>Sending\<close>

subsection \<open>A length in decimal\<close>

lemma digit_unit:
  assumes "d < 10"
  shows "is_digit (of_nat (0x30 + d))" and "uint (of_nat (0x30 + d) :: jschar) = 0x30 + int d"
proof -
  from assms have "(0x30 + d) mod 2 ^ LENGTH(16) = 0x30 + d"
    by simp
  then have "unat (of_nat (0x30 + d) :: jschar) = 0x30 + d"
    by (simp only: unat_of_nat)
  then have "uint (of_nat (0x30 + d) :: jschar) = int (0x30 + d)"
    by (simp only: uint_nat)
  then show u: "uint (of_nat (0x30 + d) :: jschar) = 0x30 + int d"
    by simp
  from assms u show "is_digit (of_nat (0x30 + d))"
    by (simp add: is_digit_def word_le_def del: of_nat_add)
qed

lemma Number_snoc: "Number (ds @ [d]) = 10 * Number ds + (uint d - 0x30)"
  by (simp add: Number_def)

lemma digits_of_digits: "list_all is_digit (digits_of n)"
proof (induction n rule: digits_of.induct)
  case (1 n)
  then show ?case
    by (subst digits_of.simps) (simp add: digit_unit(1) del: of_nat_add)
qed

lemma digits_of_nonempty: "digits_of n \<noteq> []"
  by (subst digits_of.simps) simp

lemma Number_digits_of: "Number (digits_of n) = int n"
proof (induction n rule: digits_of.induct)
  case (1 n)
  show ?case
  proof (cases "n < 10")
    case True
    then show ?thesis
      by (subst digits_of.simps) (simp add: Number_def digit_unit(2) del: of_nat_add)
  next
    case False
    with 1 have "Number (digits_of (n div 10)) = int (n div 10)" by simp
    moreover have "int n = 10 * int (n div 10) + int (n mod 10)"
      by presburger
    ultimately show ?thesis
      using False
      by (subst digits_of.simps) (simp add: Number_snoc digit_unit(2) del: of_nat_add)
  qed
qed

lemma valid_frame_digits_of: "valid_frame (digits_of (length body)) body"
  by (simp add: valid_frame_def digits_of_digits digits_of_nonempty Number_digits_of)


subsection \<open>What \<^verbatim>\<open>sendMessage\<close> writes\<close>

text \<open>The bytes that carry a message object on the wire.\<close>

definition wire :: "jsobject \<Rightarrow> buffer" where
  "wire message =
     frame (digits_of (byteLength (JSON_stringify (JObj message))))
       (utf8_encode (JSON_stringify (JObj message)))"

text \<open>The object as \<^verbatim>\<open>sendMessage\<close> leaves it.\<close>

definition stamped :: "jsstring \<Rightarrow> int \<Rightarrow> jsobject \<Rightarrow> jsobject" where
  "stamped t n message = obj_set (str ''seq'') (JNum n) (obj_set (str ''type'') (JStr t) message)"

lemma sendMessage_eq:
  "sendMessage t message st =
     (stamped t (sequence st) message,
      st\<lparr>sequence := sequence st + 1,
          outputStream := outputStream st @ wire (stamped t (sequence st) message)\<rparr>)"
  by (simp add: sendMessage_def Let_def stream_write_def wire_def stamped_def frame_def
      header_def byteLength_def)

lemma obj_get_stamped_seq: "obj_get (stamped t n message) (str ''seq'') = Some (JNum n)"
  by (simp add: stamped_def)

lemma sendRequest_eq:
  "sendRequest command args clb st =
     (let st1 = snd (sendMessage (str ''request'') (new_request command args) st)
      in case clb of
           None \<Rightarrow> st1
         | Some c \<Rightarrow> st1\<lparr>pendingRequests := (pendingRequests st1)(sequence st \<mapsto> c)\<rparr>)"
  by (simp add: sendRequest_def sendMessage_eq obj_get_stamped_seq split: option.split)

lemma utf8_encode_header:
  "list_all is_digit ds \<Longrightarrow>
   utf8_encode (header ds) = bytes ''Content-Length: '' @ map ucast ds @ [0x0D, 0x0A, 0x0D, 0x0A]"
  by (simp add: utf8_encode_ascii [OF is_ascii_header])
     (simp add: header_def str_def bytes_def TWO_CRLF_def)

text \<open>
  Claim C6. The bytes that \<^verbatim>\<open>sendMessage\<close> writes for a message are the text
  \<^verbatim>\<open>Content-Length: \<close>, the decimal digits of \<open>N\<close>, two CRLF, and the body, where
  the body is the UTF-8 encoding of the JSON text of the message as sent and \<open>N\<close> is
  the number of bytes of the body. \<^verbatim>\<open>sendRequest\<close> and \<^verbatim>\<open>sendResponse\<close> write
  through \<^verbatim>\<open>sendMessage\<close> only.
\<close>

theorem content_length_counts_bytes:
  assumes "sendMessage t message st = (message', st')"
    and "body = utf8_encode (JSON_stringify (JObj message'))"
  shows "outputStream st'
           = outputStream st @ bytes ''Content-Length: '' @ map ucast (digits_of (length body))
               @ [0x0D, 0x0A, 0x0D, 0x0A] @ body \<and>
         list_all is_digit (digits_of (length body)) \<and>
         Number (digits_of (length body)) = int (length body)"
  using assms
  by (auto simp: sendMessage_eq wire_def frame_def byteLength_def utf8_encode_header
      digits_of_digits Number_digits_of)

text \<open>
  A message whose text ends in U+00E9, which UTF-8 writes as two bytes: 41 characters of
  JSON, 42 bytes on the wire.
\<close>

definition cafe :: jsobject where
  "cafe = [(str ''message'', JStr [0x63, 0x61, 0x66, 0xE9])]"

definition cafe_sent :: jsobject where
  "cafe_sent = [(str ''message'', JStr [0x63, 0x61, 0x66, 0xE9]),
                (str ''type'', JStr (str ''event'')), (str ''seq'', JNum 1)]"

lemma cafe_sendMessage:
  "fst (sendMessage (str ''event'') cafe (constructor :: nat protocol)) = cafe_sent"
  unfolding cafe_def cafe_sent_def by code_simp

lemma cafe_text:
  \<open>JSON_stringify (JObj cafe_sent)
     = str ''{"message":"caf'' @ [0xE9] @ str ''","type":"event","seq":1}''\<close>
  unfolding cafe_sent_def by code_simp

lemma cafe_body:
  \<open>utf8_encode (JSON_stringify (JObj cafe_sent))
     = bytes ''{"message":"caf'' @ [0xC3, 0xA9] @ bytes ''","type":"event","seq":1}''\<close>
  unfolding cafe_sent_def by code_simp

lemma digits_of_42: "digits_of 42 = [0x34, 0x32]"
  by code_simp

lemma cafe_length: "length (JSON_stringify (JObj cafe_sent)) = 41"
  unfolding cafe_sent_def by code_simp

theorem content_length_counts_bytes_witness:
  \<open>outputStream (snd (sendMessage (str ''event'') cafe (constructor :: nat protocol)))
     = bytes ''Content-Length: 42'' @ [0x0D, 0x0A, 0x0D, 0x0A]
         @ bytes ''{"message":"caf'' @ [0xC3, 0xA9] @ bytes ''","type":"event","seq":1}'' \<and>
   length (JSON_stringify (JObj cafe_sent)) = 41\<close>
proof -
  have start: "outputStream (constructor :: nat protocol) = []"
    by (simp add: constructor_def)
  have size: \<open>length (bytes ''{"message":"caf'' @ [0xC3, 0xA9 :: byte]
                  @ bytes ''","type":"event","seq":1}'') = 42\<close>
    by (simp add: bytes_def)
  have digits: "map ucast (digits_of 42) = (bytes ''42'' :: buffer)"
    by (simp add: digits_of_42 bytes_def)
  from content_length_counts_bytes [OF prod.collapse [symmetric] refl,
      of "str ''event''" cafe "constructor :: nat protocol"]
  have "outputStream (snd (sendMessage (str ''event'') cafe (constructor :: nat protocol)))
     = outputStream (constructor :: nat protocol) @ bytes ''Content-Length: ''
         @ map ucast (digits_of (length (utf8_encode (JSON_stringify (JObj
             (fst (sendMessage (str ''event'') cafe (constructor :: nat protocol))))))))
         @ [0x0D, 0x0A, 0x0D, 0x0A]
         @ utf8_encode (JSON_stringify (JObj
             (fst (sendMessage (str ''event'') cafe (constructor :: nat protocol)))))"
    by (rule conjunct1)
  then have \<open>outputStream (snd (sendMessage (str ''event'') cafe (constructor :: nat protocol)))
     = bytes ''Content-Length: '' @ bytes ''42'' @ [0x0D, 0x0A, 0x0D, 0x0A]
         @ bytes ''{"message":"caf'' @ [0xC3, 0xA9] @ bytes ''","type":"event","seq":1}''\<close>
    by (simp only: cafe_sendMessage cafe_body size digits start append_Nil)
  then show ?thesis
    by (simp add: bytes_def cafe_length)
qed

subsection \<open>The guard of \<^verbatim>\<open>sendResponse\<close>\<close>

definition rejection_line :: "jsobject \<Rightarrow> jsstring" where
  "rejection_line response =
     str ''attempt to send more than one response for command '' @
     interpolate (obj_get response (str ''command''))"


definition fresh_response :: jsobject where
  "fresh_response =
     [(str ''seq'', JNum 0), (str ''type'', JStr (str ''response'')),
      (str ''request_seq'', JNum 3), (str ''command'', JStr (str ''next'')),
      (str ''success'', JBool True)]"


definition negative_response :: jsobject where
  "negative_response =
     [(str ''seq'', JNum (- 1)), (str ''type'', JStr (str ''response'')),
      (str ''request_seq'', JNum 3), (str ''command'', JStr (str ''next'')),
      (str ''success'', JBool True)]"


text \<open>
  Claim C4, amended. When the \<^verbatim>\<open>seq\<close> of the response is a number greater than
  zero, \<^verbatim>\<open>sendResponse\<close> writes one line with \<^verbatim>\<open>console.error\<close> and does
  nothing else: no byte is written, the sequence counter, the pending table and the signals
  are as before, and the response object is returned untouched. When \<^verbatim>\<open>seq\<close> is
  missing, zero or negative, the response is sent: it gets the type \<^verbatim>\<open>response\<close>
  and the next sequence number, and its frame is written.
\<close>

theorem sendResponse_guard:
  "(obj_get response (str ''seq'') = Some (JNum n) \<and> 0 < n \<longrightarrow>
      sendResponse response st
        = (response, st\<lparr>console := console st @ [rejection_line response]\<rparr>)) \<and>
   (obj_get response (str ''seq'') = None \<or>
    obj_get response (str ''seq'') = Some (JNum n) \<and> n \<le> 0 \<longrightarrow>
      sendResponse response st
        = (stamped (str ''response'') (sequence st) response,
           st\<lparr>sequence := sequence st + 1,
               outputStream := outputStream st
                 @ wire (stamped (str ''response'') (sequence st) response)\<rparr>))"
  by (auto simp: sendResponse_def console_error_def rejection_line_def sendMessage_eq)



text \<open>
  Claim C4, as stated, fails: a response whose \<^verbatim>\<open>seq\<close> is \<open>-1\<close> is not zero, and
  it is sent; and a response that is rejected is reported on the console only, no event is
  fired on the error emitter.
\<close>

theorem sendResponse_negative_seq_counterexample:
  "obj_get negative_response (str ''seq'') = Some (JNum (- 1)) \<and>
   sequence (snd (sendResponse negative_response (constructor :: nat protocol))) = 2 \<and>
   outputStream (snd (sendResponse negative_response (constructor :: nat protocol))) \<noteq> [] \<and>
   console (snd (sendResponse negative_response (constructor :: nat protocol))) = [] \<and>
   signals (snd (sendResponse (fst (sendResponse fresh_response constructor))
                  (constructor :: nat protocol))) = []"
  unfolding negative_response_def fresh_response_def by code_simp

lemma fresh_response_seq: "obj_get fresh_response (str ''seq'') = Some (JNum 0)"
  unfolding fresh_response_def by code_simp


theorem sendResponse_guard_witness:
  "fst (sendResponse fresh_response (constructor :: nat protocol))
     = stamped (str ''response'') 1 fresh_response \<and>
   snd (sendResponse (stamped (str ''response'') 1 fresh_response)
          (snd (sendResponse fresh_response (constructor :: nat protocol))))
     = (snd (sendResponse fresh_response (constructor :: nat protocol)))
         \<lparr>console := [str ''attempt to send more than one response for command next'']\<rparr>"
proof -
  let ?st1 = "snd (sendResponse fresh_response (constructor :: nat protocol))"
  from sendResponse_guard [of fresh_response 0 "constructor :: nat protocol"] fresh_response_seq
  have first: "sendResponse fresh_response (constructor :: nat protocol)
      = (stamped (str ''response'') 1 fresh_response,
         constructor\<lparr>sequence := 2,
            outputStream := wire (stamped (str ''response'') 1 fresh_response)\<rparr>)"
    by (simp add: constructor_def)
  have "obj_get (stamped (str ''response'') 1 fresh_response) (str ''seq'') = Some (JNum 1)"
    by (rule obj_get_stamped_seq)
  with sendResponse_guard [of "stamped (str ''response'') 1 fresh_response" 1 ?st1]
  have "sendResponse (stamped (str ''response'') 1 fresh_response) ?st1
      = (stamped (str ''response'') 1 fresh_response,
         ?st1\<lparr>console := console ?st1 @ [rejection_line (stamped (str ''response'') 1 fresh_response)]\<rparr>)"
    by simp
  moreover have "rejection_line (stamped (str ''response'') 1 fresh_response)
      = str ''attempt to send more than one response for command next''"
    unfolding fresh_response_def by code_simp
  ultimately show ?thesis
    using first by (simp add: constructor_def)
qed


subsection \<open>Sequence numbers\<close>

text \<open>
  What a user of the transport can do to it: send a request, send a response, or let a
  chunk of bytes arrive. \<open>perform\<close> gives the message object that the operation puts
  on the wire, if it sends one, and the state after it; \<open>run\<close> does a list of
  operations and collects the messages sent, in order.
\<close>

datatype 'cb operation =
    Send_request jsstring "json option" "'cb option"
  | Send_response jsobject
  | Data buffer

fun perform :: "'cb operation \<Rightarrow> 'cb protocol \<Rightarrow> jsobject option \<times> 'cb protocol" where
  "perform (Send_request command args clb) st =
     (Some (fst (sendMessage (str ''request'') (new_request command args) st)),
      sendRequest command args clb st)"
| "perform (Send_response response) st =
     (if greater_than_zero (obj_get response (str ''seq'')) then None
      else Some (fst (sendResponse response st)),
      snd (sendResponse response st))"
| "perform (Data chunk) st = (None, onData chunk st)"

fun run :: "'cb operation list \<Rightarrow> 'cb protocol \<Rightarrow> jsobject list \<times> 'cb protocol" where
  "run [] st = ([], st)"
| "run (x # xs) st =
     (case perform x st of
        (None, st1) \<Rightarrow> run xs st1
      | (Some message, st1) \<Rightarrow> (message # fst (run xs st1), snd (run xs st1)))"

lemma dispatch_keeps_sending [simp]:
  "sequence (dispatch body st) = sequence st"
  "outputStream (dispatch body st) = outputStream st"
  by (simp_all add: dispatch_def fire_def split: sum.split option.split)

lemma handleData_step_keeps_sending:
  "handleData_step st = Some st' \<Longrightarrow>
   sequence st' = sequence st \<and> outputStream st' = outputStream st"
  by (auto simp: handleData_step_def Let_def split: if_splits option.splits)

lemma handleData_keeps_sending:
  "sequence (handleData st) = sequence st \<and> outputStream (handleData st) = outputStream st"
proof (induction st rule: handleData.induct)
  case (1 st)
  show ?case
  proof (cases "handleData_step st")
    case None
    then show ?thesis by (simp add: handleData_None)
  next
    case (Some st')
    with 1 handleData_step_keeps_sending [OF Some] show ?thesis
      by (simp add: handleData_Some [OF Some])
  qed
qed

lemma onData_keeps_sending:
  "sequence (onData chunk st) = sequence st \<and> outputStream (onData chunk st) = outputStream st"
  using handleData_keeps_sending [of "st\<lparr>rawData := rawData st @ chunk\<rparr>"]
  by (simp add: onData_def)

lemma perform_None:
  "perform x st = (None, st1) \<Longrightarrow>
   sequence st1 = sequence st \<and> outputStream st1 = outputStream st"
  by (cases x)
     (auto simp: onData_keeps_sending sendResponse_def console_error_def split: if_splits)

lemma perform_Some:
  "perform x st = (Some message, st1) \<Longrightarrow>
   obj_get message (str ''seq'') = Some (JNum (sequence st)) \<and>
   sequence st1 = sequence st + 1 \<and> outputStream st1 = outputStream st @ wire message"
  by (cases x)
     (auto simp: sendRequest_eq sendMessage_eq sendResponse_def obj_get_stamped_seq Let_def
        split: if_splits option.splits)

lemma run_sequence:
  "map (\<lambda>m. obj_get m (str ''seq'')) (fst (run xs st))
     = map (\<lambda>k. Some (JNum (sequence st + int k))) [0..<length (fst (run xs st))] \<and>
   sequence (snd (run xs st)) = sequence st + int (length (fst (run xs st))) \<and>
   outputStream (snd (run xs st)) = outputStream st @ concat (map wire (fst (run xs st)))"
proof (induction xs arbitrary: st)
  case Nil
  show ?case by simp
next
  case (Cons x xs)
  obtain m st1 where p: "perform x st = (m, st1)" by (cases "perform x st")
  show ?case
  proof (cases m)
    case None
    with p perform_None [of x st st1] Cons.IH [of st1] show ?thesis
      by simp
  next
    case (Some message)
    with p perform_Some [of x st message st1] Cons.IH [of st1] show ?thesis
      by (simp add: upt_rec [of 0] map_Suc_upt [symmetric] del: upt_Suc)
  qed
qed

text \<open>
  Claim C5. Whatever sequence of sends and arrivals a new transport goes through, the
  \<^verbatim>\<open>seq\<close> values of the messages it sends are 1, 2, 3, ... in the order they are
  sent, without gap or repetition; the counter is one more than the number of messages
  sent, so that nothing but a send moves it; and the bytes written are the frames of
  these messages, in order.
\<close>

theorem sequence_numbers:
  "map (\<lambda>m. obj_get m (str ''seq'')) (fst (run xs constructor))
     = map (\<lambda>k. Some (JNum (int k))) [1..<Suc (length (fst (run xs constructor)))] \<and>
   sequence (snd (run xs constructor)) = 1 + int (length (fst (run xs constructor))) \<and>
   outputStream (snd (run xs constructor)) = concat (map wire (fst (run xs constructor)))"
proof -
  have "map (\<lambda>k. Some (JNum (1 + int k))) [0..<n] = map (\<lambda>k. Some (JNum (int k))) [1..<Suc n]"
    for n
    by (simp add: map_Suc_upt [symmetric] del: upt_Suc)
  with run_sequence [of xs constructor] show ?thesis
    by (simp add: constructor_def)
qed


section \<open>A header block without \<^verbatim>\<open>Content-Length\<close>\<close>

text \<open>
  Claim C1 asks that a header block without a \<^verbatim>\<open>Content-Length\<close> token be dropped
  and the valid frame after it be decoded. The loop finds the separator of the block with
  \<^verbatim>\<open>indexOf\<close>, but it matches the pattern against the whole buffer and not against
  the text before the separator, so the length that the frame announces is taken for the
  block and the body is cut right after the block's separator. At the input below the code
  departs from the claim. The frame of an event, fed alone, fires the event. Fed right after
  the bytes \<^verbatim>\<open>Garbage\<close> and two CRLF, its first 16 bytes, the text
  \<^verbatim>\<open>Content-Length: \<close>, are handed to \<^verbatim>\<open>dispatch\<close>: an error is fired, no
  event is, and the end of the frame is left in the buffer.
\<close>

definition event_body :: buffer where
  \<open>event_body = bytes ''{"type":"event"}''\<close>

theorem garbage_header_failing_input:
  "valid_frame (str ''16'') event_body \<and>
   signals (onData (frame (str ''16'') event_body) (constructor :: nat protocol))
     = [Fire_onEvent (JObj [(str ''type'', JStr (str ''event''))])] \<and>
   signals (onData (bytes ''Garbage'' @ [13, 10, 13, 10] @ frame (str ''16'') event_body)
              (constructor :: nat protocol))
     = [Fire_onError (str ''Unexpected token in JSON'')] \<and>
   rawData (onData (bytes ''Garbage'' @ [13, 10, 13, 10] @ frame (str ''16'') event_body)
              (constructor :: nat protocol))
     = bytes ''16'' @ [13, 10, 13, 10] @ event_body"
  unfolding event_body_def by code_simp

section \<open>A request sent and read back\<close>

subsection \<open>UTF-8 written and read\<close>

text \<open>
  A string is well formed when every surrogate in it is half of a pair. Such a string is
  what \<^verbatim>\<open>toString('utf8')\<close> gives back from the bytes that writing it produced.
\<close>

fun wf16 :: "jsstring \<Rightarrow> bool" where
  "wf16 [] = True"
| "wf16 [c] = (\<not> is_high_surrogate c \<and> \<not> is_low_surrogate c)"
| "wf16 (c # d # cs) =
     (if is_high_surrogate c \<and> is_low_surrogate d then wf16 cs
      else \<not> is_high_surrogate c \<and> \<not> is_low_surrogate c \<and> wf16 (d # cs))"

lemma uint_byte: "0 \<le> x \<Longrightarrow> x < 256 \<Longrightarrow> uint (of_int x :: byte) = x"
  by (simp add: uint_word_of_int)

lemma uint_unit: "0 \<le> x \<Longrightarrow> x < 65536 \<Longrightarrow> uint (of_int x :: jschar) = x"
  by (simp add: uint_word_of_int)

lemma split_64:
  fixes x :: int
  shows "x = x div 64 * 64 + x mod 64" and "0 \<le> x mod 64" and "x mod 64 < 64"
  by simp_all

lemma low_bits:
  fixes x :: int
  shows "0 \<le> x \<Longrightarrow> x < m \<Longrightarrow> (k * m + x) mod m = x"
  by simp

lemma decode_1:
  assumes "0 \<le> cp" and "cp < 0x80"
  shows "utf8_decode utf8_start (utf8_bytes cp @ bs) = utf16_units cp @ utf8_decode utf8_start bs"
  using assms
  by (simp add: utf8_bytes_def uint_byte utf8_start_def utf8_lead_def utf16_units_def)

lemma decode_2:
  assumes "0x80 \<le> cp" and "cp < 0x800"
  shows "utf8_decode utf8_start (utf8_bytes cp @ bs) = utf16_units cp @ utf8_decode utf8_start bs"
proof -
  define a where "a = cp div 64"
  define b where "b = cp mod 64"
  define b1 :: byte where "b1 = of_int (0xC0 + a)"
  define b2 :: byte where "b2 = of_int (0x80 + b)"
  from split_64 [of cp] have cp: "a * 64 + b = cp" and b: "0 \<le> b" "b < 64"
    by (simp_all add: a_def b_def)
  from assms cp b have a: "2 \<le> a" "a < 32"
    by linarith+
  have bytes: "utf8_bytes cp = [b1, b2]"
    using assms by (simp add: utf8_bytes_def a_def b_def b1_def b2_def)
  have u1: "uint b1 = 0xC0 + a"
    unfolding b1_def using a by (intro uint_byte) simp_all
  have u2: "uint b2 = 0x80 + b"
    unfolding b2_def using b by (intro uint_byte) simp_all
  from a low_bits [of a 32 6] have m: "(0xC0 + a) mod 0x20 = a" by simp
  from b low_bits [of b 64 2] have n: "(0x80 + b) mod 0x40 = b" by simp
  from a b show ?thesis
    unfolding bytes
    by (simp add: u1 u2 utf8_start_def utf8_lead_def m n cp)
qed

lemma decode_3:
  assumes "0x800 \<le> cp" and "cp < 0x10000" and "cp < 0xD800 \<or> 0xDFFF < cp"
  shows "utf8_decode utf8_start (utf8_bytes cp @ bs) = utf16_units cp @ utf8_decode utf8_start bs"
proof -
  define q where "q = cp div 64"
  define a where "a = q div 64"
  define b where "b = q mod 64"
  define c where "c = cp mod 64"
  define b1 :: byte where "b1 = of_int (0xE0 + a)"
  define b2 :: byte where "b2 = of_int (0x80 + b)"
  define b3 :: byte where "b3 = of_int (0x80 + c)"
  from split_64 [of cp] have cp: "q * 64 + c = cp" and c: "0 \<le> c" "c < 64"
    by (simp_all add: q_def c_def)
  from split_64 [of q] have q: "a * 64 + b = q" and b: "0 \<le> b" "b < 64"
    by (simp_all add: a_def b_def)
  from assms(1,2) cp c q b have a: "0 \<le> a" "a < 16"
    by linarith+
  from assms(1) cp c q b have low: "a = 0 \<Longrightarrow> 32 \<le> b"
    by linarith
  from assms(2,3) cp c q b have high: "a = 13 \<Longrightarrow> b < 32"
    by linarith
  have "cp div 0x1000 = a"
    using zdiv_zmult2_eq [of 64 cp 64] by (simp add: a_def q_def)
  then have bytes: "utf8_bytes cp = [b1, b2, b3]"
    using assms by (simp add: utf8_bytes_def a_def b_def c_def q_def b1_def b2_def b3_def)
  have u1: "uint b1 = 0xE0 + a"
    unfolding b1_def using a by (intro uint_byte) simp_all
  have u2: "uint b2 = 0x80 + b"
    unfolding b2_def using b by (intro uint_byte) simp_all
  have u3: "uint b3 = 0x80 + c"
    unfolding b3_def using c by (intro uint_byte) simp_all
  from a low_bits [of a 16 14] have m: "(0xE0 + a) mod 0x10 = a" by simp
  from b low_bits [of b 64 2] have n: "(0x80 + b) mod 0x40 = b" by simp
  from c low_bits [of c 64 2] have k: "(0x80 + c) mod 0x40 = c" by simp
  have total: "(a * 64 + b) * 64 + c = cp"
    using cp q by simp
  have step1: "utf8_step utf8_start (uint b1)
      = ([], (a, 2, if a = 0 then 0xA0 else 0x80, if a = 13 then 0x9F else 0xBF))"
    using a by (simp add: u1 utf8_start_def utf8_lead_def m)
  have step2: "utf8_step (a, 2, if a = 0 then 0xA0 else 0x80, if a = 13 then 0x9F else 0xBF) (uint b2)
      = ([], (a * 64 + b, 1, 0x80, 0xBF))"
    using b low high by (auto simp: u2 n)
  have "utf8_step (a * 64 + b, 1, 0x80, 0xBF) (uint b3)
      = (utf16_units ((a * 64 + b) * 64 + c), utf8_start)"
    using c by (simp add: u3 k)
  then have step3: "utf8_step (a * 64 + b, 1, 0x80, 0xBF) (uint b3) = (utf16_units cp, utf8_start)"
    by (simp only: total)
  show ?thesis
    unfolding bytes
    by (simp only: append_Cons append_Nil utf8_decode.simps(2) step1 step2 step3 fst_conv snd_conv)
qed

lemma decode_4:
  assumes "0x10000 \<le> cp" and "cp < 0x110000"
  shows "utf8_decode utf8_start (utf8_bytes cp @ bs) = utf16_units cp @ utf8_decode utf8_start bs"
proof -
  define q where "q = cp div 64"
  define r where "r = q div 64"
  define a where "a = r div 64"
  define b where "b = r mod 64"
  define c where "c = q mod 64"
  define d where "d = cp mod 64"
  define b1 :: byte where "b1 = of_int (0xF0 + a)"
  define b2 :: byte where "b2 = of_int (0x80 + b)"
  define b3 :: byte where "b3 = of_int (0x80 + c)"
  define b4 :: byte where "b4 = of_int (0x80 + d)"
  from split_64 [of cp] have cp: "q * 64 + d = cp" and d: "0 \<le> d" "d < 64"
    by (simp_all add: q_def d_def)
  from split_64 [of q] have q: "r * 64 + c = q" and c: "0 \<le> c" "c < 64"
    by (simp_all add: r_def c_def)
  from split_64 [of r] have r: "a * 64 + b = r" and b: "0 \<le> b" "b < 64"
    by (simp_all add: a_def b_def)
  from assms cp d q c r b have a: "0 \<le> a" "a < 5"
    by linarith+
  from assms(1) cp d q c r b have low: "a = 0 \<Longrightarrow> 16 \<le> b"
    by linarith
  from assms(2) cp d q c r b have high: "a = 4 \<Longrightarrow> b < 16"
    by linarith
  have "cp div 0x1000 = r"
    using zdiv_zmult2_eq [of 64 cp 64] by (simp add: r_def q_def)
  moreover have "cp div 0x40000 = a"
    using zdiv_zmult2_eq [of 64 cp 64] zdiv_zmult2_eq [of 64 cp 4096]
    by (simp add: a_def r_def q_def)
  ultimately have bytes: "utf8_bytes cp = [b1, b2, b3, b4]"
    using assms
    by (simp add: utf8_bytes_def a_def b_def c_def d_def q_def r_def b1_def b2_def b3_def b4_def)
  have u1: "uint b1 = 0xF0 + a"
    unfolding b1_def using a by (intro uint_byte) simp_all
  have u2: "uint b2 = 0x80 + b"
    unfolding b2_def using b by (intro uint_byte) simp_all
  have u3: "uint b3 = 0x80 + c"
    unfolding b3_def using c by (intro uint_byte) simp_all
  have u4: "uint b4 = 0x80 + d"
    unfolding b4_def using d by (intro uint_byte) simp_all
  from a low_bits [of a 8 30] have m: "(0xF0 + a) mod 8 = a" by simp
  from b low_bits [of b 64 2] have n: "(0x80 + b) mod 0x40 = b" by simp
  from c low_bits [of c 64 2] have k: "(0x80 + c) mod 0x40 = c" by simp
  from d low_bits [of d 64 2] have l: "(0x80 + d) mod 0x40 = d" by simp
  have total: "((a * 64 + b) * 64 + c) * 64 + d = cp"
    using cp q r by simp
  have step1: "utf8_step utf8_start (uint b1)
      = ([], (a, 3, if a = 0 then 0x90 else 0x80, if a = 4 then 0x8F else 0xBF))"
    using a by (simp add: u1 utf8_start_def utf8_lead_def m)
  have step2: "utf8_step (a, 3, if a = 0 then 0x90 else 0x80, if a = 4 then 0x8F else 0xBF) (uint b2)
      = ([], (a * 64 + b, 2, 0x80, 0xBF))"
    using b low high by (auto simp: u2 n)
  have step3: "utf8_step (a * 64 + b, 2, 0x80, 0xBF) (uint b3)
      = ([], ((a * 64 + b) * 64 + c, 1, 0x80, 0xBF))"
    using c by (simp add: u3 k)
  have "utf8_step ((a * 64 + b) * 64 + c, 1, 0x80, 0xBF) (uint b4)
      = (utf16_units (((a * 64 + b) * 64 + c) * 64 + d), utf8_start)"
    using d by (simp add: u4 l)
  then have step4: "utf8_step ((a * 64 + b) * 64 + c, 1, 0x80, 0xBF) (uint b4)
      = (utf16_units cp, utf8_start)"
    by (simp only: total)
  show ?thesis
    unfolding bytes
    by (simp only: append_Cons append_Nil utf8_decode.simps(2) step1 step2 step3 step4
        fst_conv snd_conv)
qed

lemma uint_jschar_bound: "0 \<le> uint (c :: jschar) \<and> uint c < 0x10000"
  using uint_bounded [of c] by simp

lemma decode_code_point:
  assumes "0 \<le> cp" and "cp < 0x110000" and "cp < 0xD800 \<or> 0xDFFF < cp"
  shows "utf8_decode utf8_start (utf8_bytes cp @ bs) = utf16_units cp @ utf8_decode utf8_start bs"
proof -
  consider "cp < 0x80" | "0x80 \<le> cp" "cp < 0x800" | "0x800 \<le> cp" "cp < 0x10000"
    | "0x10000 \<le> cp"
    by linarith
  then show ?thesis
    using assms by cases (simp_all add: decode_1 decode_2 decode_3 decode_4)
qed

lemma decode_unit:
  assumes "\<not> is_high_surrogate c" and "\<not> is_low_surrogate c"
  shows "utf8_decode utf8_start (utf8_bytes (unit_code_point c) @ bs)
           = c # utf8_decode utf8_start bs"
proof -
  from assms have "uint c < 0xD800 \<or> 0xDFFF < uint c"
    by (auto simp: is_high_surrogate_def is_low_surrogate_def word_le_def)
  with uint_jschar_bound [of c]
  have "utf8_decode utf8_start (utf8_bytes (uint c) @ bs)
          = utf16_units (uint c) @ utf8_decode utf8_start bs"
    by (intro decode_code_point) simp_all
  with assms uint_jschar_bound [of c] show ?thesis
    by (simp add: unit_code_point_def utf16_units_def)
qed

lemma decode_pair:
  assumes "is_high_surrogate c" and "is_low_surrogate d"
  shows "utf8_decode utf8_start
           (utf8_bytes (0x10000 + (uint c - 0xD800) * 0x400 + (uint d - 0xDC00)) @ bs)
           = c # d # utf8_decode utf8_start bs"
proof -
  define h where "h = uint c - 0xD800"
  define l where "l = uint d - 0xDC00"
  from assms have h: "0 \<le> h" "h < 0x400" and l: "0 \<le> l" "l < 0x400"
    by (simp_all add: h_def l_def is_high_surrogate_def is_low_surrogate_def word_le_def)
  let ?cp = "0x10000 + h * 0x400 + l"
  from h l have range: "0x10000 \<le> ?cp" "?cp < 0x110000"
    by linarith+
  from l have "(h * 0x400 + l) div 0x400 = h" "(h * 0x400 + l) mod 0x400 = l"
    by simp_all
  with range have "utf16_units ?cp = [of_int (0xD800 + h), of_int (0xDC00 + l)]"
    by (simp add: utf16_units_def)
  also have "\<dots> = [c, d]"
    by (simp add: h_def l_def)
  finally have "utf16_units ?cp = [c, d]" .
  with decode_code_point [of ?cp bs] range show ?thesis
    by (simp add: h_def l_def)
qed

lemma utf8_round_trip:
  "wf16 s \<Longrightarrow> utf8_decode utf8_start (utf8_encode s @ bs) = s @ utf8_decode utf8_start bs"
proof (induction s rule: utf8_encode.induct)
  case 1
  show ?case by simp
next
  case (2 c)
  then show ?case by (simp add: decode_unit)
next
  case (3 c d cs)
  show ?case
  proof (cases "is_high_surrogate c \<and> is_low_surrogate d")
    case True
    then have "utf8_decode utf8_start (utf8_encode (c # d # cs) @ bs)
        = utf8_decode utf8_start
            (utf8_bytes (0x10000 + (uint c - 0xD800) * 0x400 + (uint d - 0xDC00))
               @ (utf8_encode cs @ bs))"
      by (simp only: utf8_encode.simps simp_thms if_True append_assoc)
    also from True have "\<dots> = c # d # utf8_decode utf8_start (utf8_encode cs @ bs)"
      by (intro decode_pair) simp_all
    finally show ?thesis
      using 3 True by simp
  next
    case False
    then have "utf8_decode utf8_start (utf8_encode (c # d # cs) @ bs)
        = utf8_decode utf8_start (utf8_bytes (unit_code_point c) @ (utf8_encode (d # cs) @ bs))"
      by (simp only: utf8_encode.simps simp_thms if_False append_assoc)
    also from False 3(3) have "\<dots> = c # utf8_decode utf8_start (utf8_encode (d # cs) @ bs)"
      by (intro decode_unit) (simp_all split: if_splits)
    finally show ?thesis
      using 3 False by simp
  qed
qed

lemma toString_utf8_round_trip: "wf16 s \<Longrightarrow> toString_utf8 (utf8_encode s) = s"
  using utf8_round_trip [of s "[]"] by (simp add: toString_utf8_def utf8_start_def)

subsection \<open>String literals\<close>

lemma split_16:
  fixes x :: int
  shows "x = x div 16 * 16 + x mod 16" and "0 \<le> x mod 16" and "x mod 16 < 16"
  by simp_all

lemma hex_value_hex_digit:
  assumes "0 \<le> d" and "d < 16"
  shows "hex_value (hex_digit d) = Some d"
proof (cases "d < 10")
  case True
  with assms have "uint (of_int (0x30 + d) :: jschar) = 0x30 + d"
    by (intro uint_unit) simp_all
  with True assms show ?thesis
    by (simp add: hex_digit_def hex_value_def word_le_def del: of_int_add)
next
  case False
  with assms have "uint (of_int (0x57 + d) :: jschar) = 0x57 + d"
    by (intro uint_unit) simp_all
  with False assms show ?thesis
    by (simp add: hex_digit_def hex_value_def word_le_def del: of_int_add)
qed

lemma hex4_unicode_escape:
  "hex4 (drop 2 (unicode_escape c)) = Some c"
proof -
  define u where "u = uint c"
  define q where "q = u div 16"
  define r where "r = q div 16"
  define x where "x = r div 16"
  define y where "y = r mod 16"
  define z where "z = q mod 16"
  define w where "w = u mod 16"
  from split_16 [of u] have u: "q * 16 + w = u" and w: "0 \<le> w" "w < 16"
    by (simp_all add: q_def w_def)
  from split_16 [of q] have q: "r * 16 + z = q" and z: "0 \<le> z" "z < 16"
    by (simp_all add: r_def z_def)
  from split_16 [of r] have r: "x * 16 + y = r" and y: "0 \<le> y" "y < 16"
    by (simp_all add: x_def y_def)
  from uint_jschar_bound [of c] u w q z r y have x: "0 \<le> x" "x < 16"
    unfolding u_def [symmetric] by linarith+
  have d1: "uint c div 0x1000 = x"
    using zdiv_zmult2_eq [of 16 u 16] zdiv_zmult2_eq [of 16 u 256]
    by (simp add: x_def r_def q_def u_def)
  have d2: "uint c div 0x100 mod 0x10 = y"
    using zdiv_zmult2_eq [of 16 u 16] by (simp add: y_def r_def q_def u_def)
  have d3: "uint c div 0x10 mod 0x10 = z"
    by (simp add: z_def q_def u_def)
  have d4: "uint c mod 0x10 = w"
    by (simp add: w_def u_def)
  have total: "((x * 16 + y) * 16 + z) * 16 + w = uint c"
    using u q r by (simp add: u_def)
  have "hex4 [hex_digit x, hex_digit y, hex_digit z, hex_digit w]
          = Some (of_int (((x * 16 + y) * 16 + z) * 16 + w))"
    by (simp only: hex4.simps hex_value_hex_digit [OF x] hex_value_hex_digit [OF y]
        hex_value_hex_digit [OF z] hex_value_hex_digit [OF w] prod.case option.case)
  then show ?thesis
    by (simp only: unicode_escape_def d1 d2 d3 d4 total drop_Suc_Cons drop_0 numeral_2_eq_2
        of_int_uint) simp
qed

lemma parse_chars_quote_unit:
  "parse_chars (quote_unit c @ t) = consume c (parse_chars t)"
proof -
  consider (escape) "c = 0x22 \<or> c = 0x5C \<or> c = 0x08 \<or> c = 0x0C \<or> c = 0x0A \<or> c = 0x0D \<or> c = 0x09"
    | (unicode) "\<not> (c = 0x22 \<or> c = 0x5C \<or> c = 0x08 \<or> c = 0x0C \<or> c = 0x0A \<or> c = 0x0D \<or> c = 0x09)"
        "c < 0x20 \<or> is_high_surrogate c \<or> is_low_surrogate c"
    | (plain) "\<not> (c = 0x22 \<or> c = 0x5C \<or> c = 0x08 \<or> c = 0x0C \<or> c = 0x0A \<or> c = 0x0D \<or> c = 0x09)"
        "\<not> (c < 0x20 \<or> is_high_surrogate c \<or> is_low_surrogate c)"
    by blast
  then show ?thesis
  proof cases
    case escape
    then show ?thesis
      by (auto simp: quote_unit_def unescape_def)
  next
    case unicode
    have shape: "unicode_escape c = 0x5C # 0x75 # drop 2 (unicode_escape c)"
      "length (drop 2 (unicode_escape c)) = 4"
      by (simp_all add: unicode_escape_def)
    from unicode have "quote_unit c = unicode_escape c"
      by (simp add: quote_unit_def)
    then have "parse_chars (quote_unit c @ t)
        = parse_chars (0x5C # 0x75 # drop 2 (unicode_escape c) @ t)"
      using shape(1) by (metis append_Cons)
    also have "\<dots> = consume c (parse_chars t)"
      using shape(2) by (simp add: hex4_unicode_escape)
    finally show ?thesis .
  next
    case plain
    then show ?thesis
      by (simp add: quote_unit_def)
  qed
qed

lemma parse_chars_plain:
  "c \<noteq> 0x22 \<Longrightarrow> c \<noteq> 0x5C \<Longrightarrow> \<not> c < 0x20 \<Longrightarrow>
   parse_chars (c # t) = consume c (parse_chars t)"
  by simp

lemma surrogate_plain:
  assumes "is_high_surrogate c \<or> is_low_surrogate c"
  shows "c \<noteq> 0x22" "c \<noteq> 0x5C" "\<not> c < 0x20"
  using assms
  by (auto simp: is_high_surrogate_def is_low_surrogate_def word_le_def word_less_def)

lemma parse_chars_quote_chars:
  "parse_chars (quote_chars s @ 0x22 # rest) = Some (s, rest)"
proof (induction s rule: quote_chars.induct)
  case 1
  show ?case by simp
next
  case (2 c)
  show ?case
    by (simp add: parse_chars_quote_unit consume_def)
next
  case (3 c d cs)
  show ?case
  proof (cases "is_high_surrogate c \<and> is_low_surrogate d")
    case True
    from 3(1) [OF True] have IH: "parse_chars (quote_chars cs @ 0x22 # rest) = Some (cs, rest)" .
    from True have "parse_chars (quote_chars (c # d # cs) @ 0x22 # rest)
        = parse_chars (c # d # (quote_chars cs @ 0x22 # rest))"
      by (simp only: quote_chars.simps simp_thms if_True append_Cons)
    also have "\<dots> = consume c (parse_chars (d # (quote_chars cs @ 0x22 # rest)))"
      using True by (intro parse_chars_plain surrogate_plain) simp_all
    also have "\<dots> = consume c (consume d (parse_chars (quote_chars cs @ 0x22 # rest)))"
      using True by (intro arg_cong [of _ _ "consume c"] parse_chars_plain surrogate_plain) simp_all
    finally show ?thesis
      by (simp add: IH consume_def)
  next
    case False
    from 3(2) [OF False] have IH:
      "parse_chars (quote_chars (d # cs) @ 0x22 # rest) = Some (d # cs, rest)" .
    from False have "parse_chars (quote_chars (c # d # cs) @ 0x22 # rest)
        = parse_chars (quote_unit c @ (quote_chars (d # cs) @ 0x22 # rest))"
      by (simp only: quote_chars.simps if_False append_assoc)
    then show ?thesis
      by (simp only: parse_chars_quote_unit IH) (simp add: consume_def)
  qed
qed

subsection \<open>Integers\<close>

definition number_end :: "jsstring \<Rightarrow> bool" where
  "number_end rest =
     (case rest of [] \<Rightarrow> True
      | c # _ \<Rightarrow> \<not> is_digit c \<and> c \<noteq> 0x2E \<and> c \<noteq> 0x65 \<and> c \<noteq> 0x45)"

lemma starts_with_append:
  "xs \<noteq> [] \<Longrightarrow> starts_with c (xs @ ys) = starts_with c xs"
  by (cases xs) (simp_all add: starts_with_def)

lemma takeWhile_number_end: "number_end rest \<Longrightarrow> takeWhile is_digit rest = []"
  by (cases rest) (simp_all add: number_end_def)

lemma takeWhile_digits_end:
  "list_all is_digit ds \<Longrightarrow> number_end rest \<Longrightarrow> takeWhile is_digit (ds @ rest) = ds"
  by (induction ds) (simp_all add: takeWhile_number_end)

lemma number_end_starts:
  assumes "number_end rest"
  shows "\<not> starts_with 0x2E rest" "\<not> starts_with 0x65 rest" "\<not> starts_with 0x45 rest"
  using assms by (cases rest; simp add: number_end_def starts_with_def)+

lemma Number_Nil: "Number [] = 0"
  by (simp add: Number_def)

lemma parse_fraction_none:
  assumes "number_end rest"
  shows "parse_fraction neg ip rest s
           = Some (JNum ((if neg then - 1 else 1) * Number ip), rest)"
  using number_end_starts [OF assms]
  by (simp add: parse_fraction_def parse_exponent_def number_value_def Let_def Number_Nil)

lemma digits_of_0: "digits_of 0 = [0x30]"
  by (subst digits_of.simps) simp

lemma digits_of_pos:
  "0 < n \<Longrightarrow> \<exists>d ds. digits_of n = d # ds \<and> d \<noteq> 0x30"
proof (induction n rule: digits_of.induct)
  case (1 n)
  show ?case
  proof (cases "n < 10")
    case True
    with digit_unit(2) [of n] "1.prems"
    have "uint (of_nat (0x30 + n) :: jschar) \<noteq> uint (0x30 :: jschar)"
      by simp
    then have "(of_nat (0x30 + n) :: jschar) \<noteq> 0x30"
      by (rule contrapos_nn) (simp only:)
    with True show ?thesis
      by (subst digits_of.simps) simp
  next
    case False
    then have "0 < n div 10" by simp
    with False "1.IH" obtain d ds where "digits_of (n div 10) = d # ds" "d \<noteq> 0x30"
      by blast
    with False show ?thesis
      by (subst digits_of.simps) simp
  qed
qed

lemma is_digit_not_minus: "is_digit c \<Longrightarrow> c \<noteq> 0x2D"
  by (auto simp: is_digit_def)

lemma parse_number_digits:
  assumes "number_end rest"
  shows "parse_number (digits_of m @ rest) = Some (JNum (int m), rest)"
proof -
  let ?ds = "digits_of m"
  from digits_of_digits [of m] digits_of_nonempty [of m]
  obtain d ds where ds: "?ds = d # ds" "is_digit d"
    by (cases ?ds) simp_all
  from ds have no_minus: "\<not> starts_with 0x2D (?ds @ rest)"
    by (simp add: starts_with_def is_digit_not_minus)
  have ip: "(if starts_with 0x30 (?ds @ rest) then [0x30] else takeWhile is_digit (?ds @ rest))
              = ?ds"
  proof (cases "m = 0")
    case True
    then show ?thesis by (simp add: digits_of_0 starts_with_def)
  next
    case False
    with digits_of_pos [of m] have "\<not> starts_with 0x30 (?ds @ rest)"
      by (auto simp: starts_with_def)
    with takeWhile_digits_end [OF digits_of_digits assms, of m] show ?thesis
      by simp
  qed
  show ?thesis
    unfolding parse_number_def Let_def
    by (simp only: no_minus if_False ip digits_of_nonempty append_eq_conv_conj)
       (simp add: parse_fraction_none [OF assms] Number_digits_of)
qed

lemma parse_number_int_text:
  assumes "number_end rest"
  shows "parse_number (int_text n @ rest) = Some (JNum n, rest)"
proof (cases "n < 0")
  case False
  with parse_number_digits [OF assms, of "nat n"] show ?thesis
    by (simp add: int_text_def)
next
  case True
  let ?ds = "digits_of (nat (- n))"
  from True have pos: "0 < nat (- n)" by simp
  with digits_of_pos [of "nat (- n)"] have no_zero: "\<not> starts_with 0x30 (?ds @ rest)"
    by (auto simp: starts_with_def)
  have "parse_number (0x2D # ?ds @ rest)
          = parse_fraction True ?ds rest (0x2D # ?ds @ rest)"
    unfolding parse_number_def Let_def
    using no_zero takeWhile_digits_end [OF digits_of_digits assms, of "nat (- n)"]
      digits_of_nonempty [of "nat (- n)"]
    by (simp add: starts_with_def)
  with True show ?thesis
    by (simp add: int_text_def parse_fraction_none [OF assms] Number_digits_of)
qed

subsection \<open>Values\<close>

text \<open>
  The values that the round trip is proved for: the names of every object are distinct, as
  they are in any JavaScript object, and every number is an integer. \<open>cost\<close> is the
  depth of calls that reading the value back needs.
\<close>

fun wf_json :: "json \<Rightarrow> bool"
and wf_elements :: "json list \<Rightarrow> bool"
and wf_members :: "(jsstring \<times> json) list \<Rightarrow> bool"
where
  "wf_json JNull = True"
| "wf_json (JBool b) = True"
| "wf_json (JNum n) = True"
| "wf_json (JFloat text) = False"
| "wf_json (JStr s) = True"
| "wf_json (JArr vs) = wf_elements vs"
| "wf_json (JObj props) = (distinct (map fst props) \<and> wf_members props)"
| "wf_elements [] = True"
| "wf_elements (v # vs) = (wf_json v \<and> wf_elements vs)"
| "wf_members [] = True"
| "wf_members ((k, v) # props) = (wf_json v \<and> wf_members props)"

fun cost :: "json \<Rightarrow> nat"
and cost_elements :: "json list \<Rightarrow> nat"
and cost_members :: "(jsstring \<times> json) list \<Rightarrow> nat"
where
  "cost JNull = 1"
| "cost (JBool b) = 1"
| "cost (JNum n) = 1"
| "cost (JFloat text) = 1"
| "cost (JStr s) = 1"
| "cost (JArr vs) = Suc (cost_elements vs)"
| "cost (JObj props) = Suc (cost_members props)"
| "cost_elements [] = 0"
| "cost_elements [v] = Suc (cost v)"
| "cost_elements (v # w # vs) = Suc (max (cost v) (cost_elements (w # vs)))"
| "cost_members [] = 0"
| "cost_members [(k, v)] = Suc (cost v)"
| "cost_members ((k, v) # p # props) = Suc (max (cost v) (cost_members (p # props)))"

definition value_start :: "jschar \<Rightarrow> bool" where
  "value_start c \<longleftrightarrow>
     c = 0x6E \<or> c = 0x74 \<or> c = 0x66 \<or> c = 0x2D \<or> is_digit c \<or> c = 0x22 \<or> c = 0x5B \<or> c = 0x7B"

lemma value_start_not:
  "value_start c \<Longrightarrow> \<not> is_ws c \<and> c \<noteq> 0x5D \<and> c \<noteq> 0x7D \<and> c \<noteq> 0x2C \<and> c \<noteq> 0x3A"
  by (auto simp: value_start_def is_ws_def is_digit_def)

lemma int_text_start: "\<exists>c t. int_text n = c # t \<and> value_start c"
proof (cases "n < 0")
  case True
  then show ?thesis by (simp add: int_text_def value_start_def)
next
  case False
  from digits_of_digits [of "nat n"] digits_of_nonempty [of "nat n"]
  obtain d ds where "digits_of (nat n) = d # ds" "is_digit d"
    by (cases "digits_of (nat n)") simp_all
  with False show ?thesis by (simp add: int_text_def value_start_def)
qed

lemma stringify_start: "wf_json v \<Longrightarrow> \<exists>c t. stringify v = c # t \<and> value_start c"
  using int_text_start
  by (cases v) (simp_all add: value_start_def str_def quote_def)

lemma stringify_elements_start:
  "wf_elements (v # vs) \<Longrightarrow> \<exists>c t. stringify_elements (v # vs) = c # t \<and> value_start c"
  using stringify_start [of v] by (cases vs) auto

lemma skip_ws_start: "\<not> is_ws c \<Longrightarrow> skip_ws (c # t) = c # t"
  by (simp add: skip_ws_def)

lemma foldl_obj_set:
  "distinct (map fst (acc @ props)) \<Longrightarrow>
   foldl (\<lambda>props (k, v). obj_set k v props) acc props = acc @ props"
proof (induction props arbitrary: acc)
  case Nil
  show ?case by simp
next
  case (Cons p props)
  obtain k v where p: "p = (k, v)" by (cases p)
  from Cons.prems p have "k \<notin> fst ` set acc"
    by auto
  then have "obj_set k v acc = acc @ [(k, v)]"
    by (induction acc) auto
  with Cons.IH [of "acc @ [(k, v)]"] Cons.prems p show ?case
    by simp
qed

lemma make_object_distinct: "distinct (map fst props) \<Longrightarrow> make_object props = JObj props"
  using foldl_obj_set [of "[]" props] by (simp add: make_object_def)

lemma parse_value_null: "parse_value (Suc m) (str ''null'' @ rest) = Some (JNull, rest)"
  by (simp add: str_def skip_ws_def is_ws_def)

lemma parse_value_true: "parse_value (Suc m) (str ''true'' @ rest) = Some (JBool True, rest)"
  by (simp add: str_def skip_ws_def is_ws_def)

lemma parse_value_false: "parse_value (Suc m) (str ''false'' @ rest) = Some (JBool False, rest)"
  by (simp add: str_def skip_ws_def is_ws_def)

lemma parse_value_string: "parse_value (Suc m) (quote s @ rest) = Some (JStr s, rest)"
  by (simp add: quote_def skip_ws_def is_ws_def parse_chars_quote_chars)

lemma parse_value_number:
  assumes "number_end rest"
  shows "parse_value (Suc m) (int_text n @ rest) = Some (JNum n, rest)"
proof -
  have "\<exists>c t. int_text n = c # t \<and> (c = 0x2D \<or> is_digit c)"
  proof (cases "n < 0")
    case True
    then show ?thesis by (simp add: int_text_def)
  next
    case False
    from digits_of_digits [of "nat n"] digits_of_nonempty [of "nat n"]
    obtain d ds where "digits_of (nat n) = d # ds" "is_digit d"
      by (cases "digits_of (nat n)") simp_all
    with False show ?thesis by (simp add: int_text_def)
  qed
  then obtain c t where ct: "int_text n = c # t" "c = 0x2D \<or> is_digit c"
    by blast
  from ct(2) have c: "\<not> is_ws c" "c \<noteq> 0x7B" "c \<noteq> 0x5B" "c \<noteq> 0x22" "c \<noteq> 0x74" "c \<noteq> 0x66"
    "c \<noteq> 0x6E"
    by (auto simp: is_ws_def is_digit_def)
  then have "parse_value (Suc m) (c # t @ rest) = parse_number (c # t @ rest)"
    by (simp add: skip_ws_def str_def)
  with parse_number_int_text [OF assms, of n] ct(1) show ?thesis
    by simp
qed

lemma parse_value_empty_array: "parse_value (Suc m) (0x5B # 0x5D # rest) = Some (JArr [], rest)"
  by (simp add: skip_ws_def is_ws_def starts_with_def)

lemma parse_value_empty_object: "parse_value (Suc m) (0x7B # 0x7D # rest) = Some (JObj [], rest)"
  by (simp add: skip_ws_def is_ws_def starts_with_def)

lemma parse_value_array:
  assumes "value_start c"
  shows "parse_value (Suc m) (0x5B # c # t)
           = (case parse_elements m (c # t) of
                None \<Rightarrow> None
              | Some (elements, rest) \<Rightarrow> Some (JArr elements, rest))"
  using value_start_not [OF assms]
  by (simp add: skip_ws_def is_ws_def starts_with_def)

lemma parse_value_object:
  "parse_value (Suc m) (0x7B # 0x22 # t)
     = (case parse_members m (0x22 # t) of
          None \<Rightarrow> None
        | Some (members, rest) \<Rightarrow> Some (make_object members, rest))"
  by (simp add: skip_ws_def is_ws_def starts_with_def)

lemma parse_elements_step:
  assumes "parse_value m (text @ c # rest) = Some (v, c # rest)" and "c = 0x2C \<or> c = 0x5D"
  shows "parse_elements (Suc m) (text @ c # rest)
           = (if c = 0x2C then consume v (parse_elements m rest) else Some ([v], rest))"
  using assms by (auto simp: skip_ws_def is_ws_def)

lemma parse_members_step:
  assumes "parse_value m (text @ c # rest) = Some (v, c # rest)" and "c = 0x2C \<or> c = 0x7D"
  shows "parse_members (Suc m) (quote k @ 0x3A # text @ c # rest)
           = (if c = 0x2C then consume (k, v) (parse_members m rest) else Some ([(k, v)], rest))"
  using assms
  by (auto simp: quote_def skip_ws_def is_ws_def parse_chars_quote_chars)

lemma number_end_delimiter: "c = 0x2C \<or> c = 0x5D \<or> c = 0x7D \<Longrightarrow> number_end (c # rest)"
  by (auto simp: number_end_def is_digit_def)

declare parse_value.simps(2) [simp del]

declare parse_elements.simps(2) [simp del]

declare parse_members.simps(2) [simp del]

lemma parse_round_trip:
  "wf_json v \<Longrightarrow> cost v \<le> n \<Longrightarrow> number_end rest \<Longrightarrow>
     parse_value n (stringify v @ rest) = Some (v, rest)"
  "vs \<noteq> [] \<Longrightarrow> wf_elements vs \<Longrightarrow> cost_elements vs \<le> n \<Longrightarrow>
     parse_elements n (stringify_elements vs @ 0x5D # rest) = Some (vs, rest)"
  "ps \<noteq> [] \<Longrightarrow> wf_members ps \<Longrightarrow> cost_members ps \<le> n \<Longrightarrow>
     parse_members n (stringify_members ps @ 0x7D # rest) = Some (ps, rest)"
proof (induction v and vs and ps arbitrary: n rest and n rest and n rest
    rule: stringify_stringify_elements_stringify_members.induct)
  case 1
  then obtain m where "n = Suc m" by (cases n) simp_all
  then show ?case by (simp add: parse_value_null)
next
  case (2 b)
  then obtain m where "n = Suc m" by (cases n) simp_all
  then show ?case by (simp add: parse_value_true parse_value_false)
next
  case (3 k)
  then obtain m where "n = Suc m" by (cases n) simp_all
  with 3 show ?case by (simp add: parse_value_number)
next
  case (4 literal)
  then show ?case by simp
next
  case (5 s)
  then obtain m where "n = Suc m" by (cases n) simp_all
  then show ?case by (simp add: parse_value_string)
next
  case (6 vs)
  from "6.prems" obtain m where n: "n = Suc m" "cost_elements vs \<le> m"
    by (cases n) simp_all
  show ?case
  proof (cases vs)
    case Nil
    with n show ?thesis by (simp add: parse_value_empty_array)
  next
    case (Cons w ws)
    with "6.prems" stringify_elements_start [of w ws] obtain c t
      where ct: "stringify_elements vs = c # t" "value_start c"
      by auto
    from Cons "6.prems" n have "parse_elements m (stringify_elements vs @ 0x5D # rest) = Some (vs, rest)"
      by (intro "6.IH") simp_all
    with parse_value_array [OF ct(2), of m "t @ 0x5D # rest"] ct(1) n show ?thesis
      by simp
  qed
next
  case (7 props)
  from "7.prems" obtain m where n: "n = Suc m" "cost_members props \<le> m"
    by (cases n) simp_all
  show ?case
  proof (cases props)
    case Nil
    with n show ?thesis by (simp add: parse_value_empty_object)
  next
    case (Cons p ps')
    have "\<exists>t. stringify_members props = 0x22 # t"
      using Cons by (cases p; cases ps') (simp_all add: quote_def)
    then obtain t where t: "stringify_members props = 0x22 # t" by blast
    from Cons "7.prems" n
    have "parse_members m (stringify_members props @ 0x7D # rest) = Some (props, rest)"
      by (intro "7.IH") simp_all
    with parse_value_object [of m "t @ 0x7D # rest"] t n "7.prems"(1) show ?thesis
      by (simp add: make_object_distinct)
  qed
next
  case 8
  then show ?case by simp
next
  case (9 v)
  from "9.prems" obtain m where n: "n = Suc m" "cost v \<le> m"
    by (cases n) simp_all
  from "9.prems" n have "parse_value m (stringify v @ 0x5D # rest) = Some (v, 0x5D # rest)"
    by (intro "9.IH" number_end_delimiter) simp_all
  from parse_elements_step [OF this] n show ?case
    by simp
next
  case (10 v w vs)
  from "10.prems" obtain m where n: "n = Suc m" "cost v \<le> m" "cost_elements (w # vs) \<le> m"
    by (cases n) simp_all
  let ?tail = "stringify_elements (w # vs) @ 0x5D # rest"
  from "10.prems" n have "parse_value m (stringify v @ 0x2C # ?tail) = Some (v, 0x2C # ?tail)"
    by (intro "10.IH"(1) number_end_delimiter) simp_all
  from parse_elements_step [OF this]
  have "parse_elements (Suc m) (stringify v @ 0x2C # ?tail)
          = consume v (parse_elements m ?tail)"
    by simp
  moreover from "10.prems" n have "parse_elements m ?tail = Some (w # vs, rest)"
    by (intro "10.IH"(2)) simp_all
  ultimately show ?case
    using n by (simp add: consume_def)
next
  case 11
  then show ?case by simp
next
  case (12 k v)
  from "12.prems" obtain m where n: "n = Suc m" "cost v \<le> m"
    by (cases n) simp_all
  from "12.prems" n have "parse_value m (stringify v @ 0x7D # rest) = Some (v, 0x7D # rest)"
    by (intro "12.IH" number_end_delimiter) simp_all
  from parse_members_step [OF this, of k] n show ?case
    by simp
next
  case (13 k v p props)
  from "13.prems" obtain m where n: "n = Suc m" "cost v \<le> m" "cost_members (p # props) \<le> m"
    by (cases n) simp_all
  let ?tail = "stringify_members (p # props) @ 0x7D # rest"
  from "13.prems" n have "parse_value m (stringify v @ 0x2C # ?tail) = Some (v, 0x2C # ?tail)"
    by (intro "13.IH"(1) number_end_delimiter) simp_all
  from parse_members_step [OF this, of k]
  have "parse_members (Suc m) (quote k @ 0x3A # stringify v @ 0x2C # ?tail)
          = consume (k, v) (parse_members m ?tail)"
    by simp
  moreover from "13.prems" n have "parse_members m ?tail = Some (p # props, rest)"
    by (intro "13.IH"(2)) simp_all
  ultimately show ?case
    using n by (simp add: consume_def)
qed



lemma stringify_nonempty: "wf_json v \<Longrightarrow> stringify v \<noteq> []"
  using stringify_start [of v] by auto

lemma cost_bound:
  "wf_json v \<Longrightarrow> cost v \<le> 2 * length (stringify v)"
  "wf_elements vs \<Longrightarrow> cost_elements vs \<le> 2 * length (stringify_elements vs) + 1"
  "wf_members ps \<Longrightarrow> cost_members ps \<le> 2 * length (stringify_members ps) + 1"
proof (induction v and vs and ps rule: stringify_stringify_elements_stringify_members.induct)
  case (3 n)
  from stringify_nonempty [of "JNum n"] have "int_text n \<noteq> []" by simp
  then show ?case by (simp add: Suc_le_eq)
next
  case (4 literal)
  then show ?case by simp
qed (auto simp: str_def quote_def)

lemma JSON_parse_stringify:
  assumes "wf_json v"
  shows "JSON_parse (stringify v) = Inr v"
proof -
  from cost_bound(1) [OF assms] have "cost v \<le> 2 * length (stringify v) + 2"
    by simp
  with assms have "parse_value (2 * length (stringify v) + 2) (stringify v @ []) = Some (v, [])"
    by (intro parse_round_trip(1)) (simp_all add: number_end_def)
  then show ?thesis
    by (simp add: JSON_parse_def skip_ws_def)
qed

subsection \<open>The text of a value is well formed\<close>

lemma wf16_Cons:
  "\<not> is_high_surrogate c \<Longrightarrow> \<not> is_low_surrogate c \<Longrightarrow> wf16 (c # s) = wf16 s"
  by (cases s) simp_all

lemma wf16_append: "wf16 a \<Longrightarrow> wf16 b \<Longrightarrow> wf16 (a @ b)"
proof (induction a rule: wf16.induct)
  case 1
  then show ?case by simp
next
  case (2 c)
  then show ?case by (simp add: wf16_Cons)
next
  case (3 c d cs)
  then show ?case by (auto split: if_splits)
qed

lemma wf16_ascii: "list_all (\<lambda>c. c \<le> 0x7F) s \<Longrightarrow> wf16 s"
  by (induction s) (simp_all add: wf16_Cons not_surrogate_ascii)

lemma hex_digit_ascii:
  assumes "0 \<le> d" and "d < 16"
  shows "hex_digit d \<le> 0x7F"
proof (cases "d < 10")
  case True
  with assms have "uint (of_int (0x30 + d) :: jschar) = 0x30 + d"
    by (intro uint_unit) simp_all
  with True assms show ?thesis
    by (simp add: hex_digit_def word_le_def del: of_int_add)
next
  case False
  with assms have "uint (of_int (0x57 + d) :: jschar) = 0x57 + d"
    by (intro uint_unit) simp_all
  with False assms show ?thesis
    by (simp add: hex_digit_def word_le_def del: of_int_add)
qed

lemma unicode_escape_ascii: "list_all (\<lambda>c. c \<le> 0x7F) (unicode_escape c)"
proof -
  from uint_jschar_bound [of c] zdiv_mono1 [of "uint c" 65535 4096]
  have "0 \<le> uint c div 0x1000" "uint c div 0x1000 < 16"
    by (simp_all add: div_int_pos_iff)
  then have "hex_digit (uint c div 0x1000) \<le> 0x7F"
    by (rule hex_digit_ascii)
  moreover have "hex_digit (uint c div 0x100 mod 0x10) \<le> 0x7F"
    "hex_digit (uint c div 0x10 mod 0x10) \<le> 0x7F" "hex_digit (uint c mod 0x10) \<le> 0x7F"
    by (rule hex_digit_ascii; simp)+
  ultimately show ?thesis
    by (simp add: unicode_escape_def)
qed

lemma wf16_quote_unit: "wf16 (quote_unit c)"
proof (cases "c < 0x20 \<or> is_high_surrogate c \<or> is_low_surrogate c")
  case True
  have "list_all (\<lambda>c. c \<le> 0x7F) (quote_unit c)"
    using True unicode_escape_ascii [of c] by (simp add: quote_unit_def)
  then show ?thesis by (rule wf16_ascii)
next
  case False
  then show ?thesis
    by (auto simp: quote_unit_def is_high_surrogate_def is_low_surrogate_def)
qed

lemma wf16_quote_chars: "wf16 (quote_chars s)"
  by (induction s rule: quote_chars.induct) (simp_all add: wf16_quote_unit wf16_append)

lemma wf16_quote: "wf16 (quote s)"
proof -
  have "wf16 (quote_chars s @ [0x22])"
    by (intro wf16_append wf16_quote_chars) (simp add: is_high_surrogate_def is_low_surrogate_def)
  then show ?thesis
    by (simp add: quote_def wf16_Cons is_high_surrogate_def is_low_surrogate_def)
qed

lemma wf16_int_text: "wf16 (int_text n)"
proof -
  have "list_all (\<lambda>c. c \<le> 0x7F) (digits_of m)" for m
    using digits_of_digits [of m] by (auto simp: list_all_iff is_digit_ascii)
  then show ?thesis
    by (intro wf16_ascii) (simp add: int_text_def)
qed

lemma wf16_punct:
  "wf16 s \<Longrightarrow> wf16 (0x5B # s)" "wf16 s \<Longrightarrow> wf16 (0x7B # s)" "wf16 s \<Longrightarrow> wf16 (0x2C # s)"
  "wf16 s \<Longrightarrow> wf16 (0x3A # s)" "wf16 [0x5D]" "wf16 [0x7D]"
  by (simp_all add: wf16_Cons is_high_surrogate_def is_low_surrogate_def)

lemma wf16_brackets:
  "wf16 s \<Longrightarrow> wf16 (0x5B # s @ [0x5D])" "wf16 s \<Longrightarrow> wf16 (0x7B # s @ [0x7D])"
  by (simp_all add: wf16_append wf16_Cons is_high_surrogate_def is_low_surrogate_def)

lemma wf16_stringify:
  "wf_json v \<Longrightarrow> wf16 (stringify v)"
  "wf_elements vs \<Longrightarrow> wf16 (stringify_elements vs)"
  "wf_members ps \<Longrightarrow> wf16 (stringify_members ps)"
proof (induction v and vs and ps rule: stringify_stringify_elements_stringify_members.induct)
  case 1
  show ?case by (intro wf16_ascii) (simp add: str_def)
next
  case (2 b)
  show ?case by (intro wf16_ascii) (simp add: str_def)
next
  case (4 literal)
  then show ?case by simp
qed (simp_all add: wf16_int_text wf16_quote wf16_punct wf16_append wf16_brackets)

lemma codec_round_trip:
  assumes "wf_json v"
  shows "JSON_parse (toString_utf8 (utf8_encode (JSON_stringify v))) = Inr v"
  using assms
  by (simp add: JSON_stringify_def toString_utf8_round_trip wf16_stringify(1) JSON_parse_stringify)

subsection \<open>The request on the wire\<close>

text \<open>
  The object that \<^verbatim>\<open>sendRequest\<close> writes: the command, the arguments when they are
  given and have a field, the type and the sequence number.
\<close>

definition request_object :: "jsstring \<Rightarrow> json option \<Rightarrow> int \<Rightarrow> jsobject" where
  "request_object command args n =
     (str ''command'', JStr command) #
     (case args of
        Some a \<Rightarrow> if truthy args \<and> Object_keys_length args > 0 then [(str ''arguments'', a)] else []
      | None \<Rightarrow> []) @
     [(str ''type'', JStr (str ''request'')), (str ''seq'', JNum n)]"

lemma stamped_new_request:
  "stamped (str ''request'') n (new_request command args) = request_object command args n"
  by (auto simp: stamped_def new_request_def request_object_def str_def Let_def
      split: option.split)

lemma request_object_type:
  "obj_get (request_object command args n) (str ''type'') = Some (JStr (str ''request''))"
  by (simp add: request_object_def obj_get_def str_def split: option.split)

lemma request_object_command:
  "obj_get (request_object command args n) (str ''command'') = Some (JStr command)"
  by (simp add: request_object_def obj_get_def)

lemma request_object_seq:
  "obj_get (request_object command args n) (str ''seq'') = Some (JNum n)"
  by (simp add: request_object_def obj_get_def str_def split: option.split)

lemma request_object_arguments:
  "obj_get (request_object command args n) (str ''arguments'')
     = (if truthy args \<and> Object_keys_length args > 0 then args else None)"
  by (cases args) (simp_all add: request_object_def obj_get_def str_def)

lemma wf_request_object:
  assumes "pred_option wf_json args"
  shows "wf_json (JObj (request_object command args n))"
  using assms by (cases args) (auto simp: request_object_def str_def)

lemma outputStream_sendRequest:
  "outputStream (sendRequest command args clb st)
     = outputStream st @ wire (request_object command args (sequence st))"
  by (simp add: sendRequest_eq sendMessage_eq stamped_new_request Let_def split: option.split)

lemma stringify_object_nonempty: "JSON_stringify (JObj props) \<noteq> []"
  by (simp add: JSON_stringify_def)

lemma utf8_encode_empty_iff: "utf8_encode s = [] \<longleftrightarrow> s = []"
  by (induction s rule: utf8_encode.induct) (auto simp: utf8_bytes_def)

lemma onData_wire:
  assumes "rawData d = []" and "contentLength d = - 1"
  shows "onData (wire message) d
           = dispatch (toString_utf8 (utf8_encode (JSON_stringify (JObj message)))) d"
proof -
  let ?b = "utf8_encode (JSON_stringify (JObj message))"
  have "?b \<noteq> []"
    by (simp add: utf8_encode_empty_iff stringify_object_nonempty)
  then have "\<forall>(ds, b) \<in> set [(digits_of (length ?b), ?b)]. valid_frame ds b \<and> b \<noteq> []"
    by (simp add: valid_frame_digits_of)
  from onData_stream [OF this assms] show ?thesis
    by (simp add: wire_def byteLength_def)
qed

lemma dispatch_request:
  assumes "JSON_parse body = Inr (JObj props)"
    and "obj_get props (str ''type'') = Some (JStr (str ''request''))"
  shows "dispatch body st = fire (Fire_onRequest (JObj props)) st"
  using assms by (simp add: dispatch_def str_def)



end
